theory Spec2Isabelle
  imports Main "HOL-Library.Sublist"
begin

section \<open>Characters and C strings\<close>

text \<open>
  A C string is modelled by the list of its characters before the terminating NUL; a
  NULL-terminated array of tokens by the list of its tokens.
\<close>

abbreviation NUL :: char where "NUL \<equiv> CHR 0x00"
abbreviation BEL :: char where "BEL \<equiv> CHR 0x07"
abbreviation BS :: char where "BS \<equiv> CHR 0x08"
abbreviation TAB :: char where "TAB \<equiv> CHR 0x09"
abbreviation NL :: char where "NL \<equiv> CHR 0x0A"
abbreviation CR :: char where "CR \<equiv> CHR 0x0D"
abbreviation DEL :: char where "DEL \<equiv> CHR 0x7F"

text \<open>The bytes of a buffer read as a C string: everything before the first NUL.\<close>

definition cstr :: "string \<Rightarrow> string" where
  "cstr buf = takeWhile (\<lambda>c. c \<noteq> NUL) buf"

section \<open>History (sh1.c)\<close>

text \<open>
  \<^verbatim>\<open>char *history[MAX_HISTORY]; int history_count = 0;\<close> The array holds pointers, NULL
  (\<open>None\<close>) where nothing was stored. The macro \<^verbatim>\<open>MAX_HISTORY\<close> is the parameter
  \<open>cap\<close> of the functions below; the shell runs them at \<open>MAX_HISTORY\<close>.
\<close>

definition MAX_HISTORY :: nat where
  "MAX_HISTORY = 50"

record hist =
  history :: "string option list"
  history_count :: nat

text \<open>
  The first statement of \<^verbatim>\<open>add_to_history\<close>: a newline at the end of the line is
  overwritten by NUL (in the caller's buffer, so the caller goes on with the shorter line).
\<close>

definition chomp :: "string \<Rightarrow> string" where
  "chomp command = (if command \<noteq> [] \<and> last command = NL then butlast command else command)"

text \<open>
  The loop \<^verbatim>\<open>for (int i = 1; i < MAX_HISTORY; i++) history[i - 1] = history[i];\<close> from
  index \<open>i\<close> on.
\<close>

function shift_history :: "nat \<Rightarrow> nat \<Rightarrow> 'a list \<Rightarrow> 'a list" where
  "shift_history cap i h =
     (if i < cap then shift_history cap (Suc i) (h[i - 1 := h ! i]) else h)"
  by pat_completeness auto
termination
  by (relation "measure (\<lambda>(cap, i, h). cap - i)") auto

declare shift_history.simps [simp del]

definition add_to_history :: "nat \<Rightarrow> string \<Rightarrow> 'a hist_scheme \<Rightarrow> 'a hist_scheme" where
  "add_to_history cap command s =
     (let c = chomp command in
      if c = [] then s
      else if history_count s < cap then
        s\<lparr>history := (history s)[history_count s := Some c],
          history_count := history_count s + 1\<rparr>
      else
        s\<lparr>history := (shift_history cap 1 (history s))[cap - 1 := Some c]\<rparr>)"

definition get_history_command :: "int \<Rightarrow> 'a hist_scheme \<Rightarrow> string option" where
  "get_history_command index s =
     (if index \<le> 0 \<or> index > int (history_count s) then None
      else history s ! nat (index - 1))"

text \<open>
  The resident entries, oldest first, and the shape of the array the functions keep:
  \<open>history_count\<close> slots are filled, the array has \<open>cap\<close> slots.
\<close>

definition entries :: "'a hist_scheme \<Rightarrow> string list" where
  "entries s = map the (take (history_count s) (history s))"

definition history_inv :: "nat \<Rightarrow> 'a hist_scheme \<Rightarrow> bool" where
  "history_inv cap s =
     (0 < cap \<and> length (history s) = cap \<and> history_count s \<le> cap \<and>
      list_all (\<lambda>e. e \<noteq> None) (take (history_count s) (history s)))"

text \<open>The last \<open>n\<close> elements of a list (all of it when it is shorter).\<close>

definition lastn :: "nat \<Rightarrow> 'a list \<Rightarrow> 'a list" where
  "lastn n xs = drop (length xs - n) xs"

text \<open>
  A run of calls of \<^verbatim>\<open>add_to_history\<close>, and the entries such a run records: the lines
  without their trailing newline, the empty ones left out.
\<close>

definition record_all :: "nat \<Rightarrow> string list \<Rightarrow> 'a hist_scheme \<Rightarrow> 'a hist_scheme" where
  "record_all cap ls s = foldl (\<lambda>s l. add_to_history cap l s) s ls"

definition recorded :: "string list \<Rightarrow> string list" where
  "recorded ls = filter (\<lambda>c. c \<noteq> []) (map chomp ls)"

definition empty_hist :: "nat \<Rightarrow> hist" where
  "empty_hist cap = \<lparr>history = replicate cap None, history_count = 0\<rparr>"

section \<open>The operating system as the shell sees it\<close>

text \<open>
  What a child's standard input or output refers to: the stream inherited from the shell,
  an end of the \<open>i\<close>-th pipe of the pipeline, or a file opened by a redirection.
\<close>

datatype open_mode = Open_rdonly | Open_trunc | Open_append

datatype endpoint = Inherited | Pipe_read nat | Pipe_write nat | File string open_mode

record child_io =
  io_stdin :: endpoint
  io_stdout :: endpoint

text \<open>
  Everything the code asks of the system is a field of \<open>world\<close>: whether an
  \<^verbatim>\<open>open\<close>, \<^verbatim>\<open>dup2\<close>, \<^verbatim>\<open>fork\<close> or \<^verbatim>\<open>pipe\<close> call succeeds (the last two by the number
  of such calls made before), whether \<^verbatim>\<open>execvp\<close> finds the program and with which status
  the program then terminates, the process id a fork returns, the text \<^verbatim>\<open>perror\<close> adds,
  the names \<^verbatim>\<open>readdir\<close> lists (\<open>None\<close>: \<^verbatim>\<open>opendir\<close> failed), and the content of
  memory the code reads before writing it (a fresh \<^verbatim>\<open>malloc\<close> block; the local
  \<^verbatim>\<open>status\<close> of \<^verbatim>\<open>sh_loop\<close>). Allocation is taken to succeed.
\<close>

record world =
  open_ok :: "string \<Rightarrow> open_mode \<Rightarrow> bool"
  dup2_ok :: "endpoint \<Rightarrow> bool"
  fork_ok :: "nat \<Rightarrow> bool"
  pipe_ok :: "nat \<Rightarrow> bool"
  program :: "string list \<Rightarrow> child_io \<Rightarrow> int option"
  pid_of :: "nat \<Rightarrow> nat"
  errmsg :: string
  dir_entries :: "string list option"
  uninit :: "nat \<Rightarrow> char"
  uninit_status :: int

datatype redir_error = Missing_target | Open_failed | Dup2_failed

text \<open>
  How a child ends: a \<^verbatim>\<open>dup2\<close> onto a pipe failed, \<^verbatim>\<open>handle_redirection\<close> failed,
  \<^verbatim>\<open>execvp\<close> was called with a NULL file name, \<^verbatim>\<open>execvp\<close> failed, or the program ran with
  the given arguments and streams and terminated with a status. Only the last is an
  execution of the command. A call \<^verbatim>\<open>execvp(NULL, args)\<close> is outside what \<^verbatim>\<open>execvp\<close>
  accepts; with glibc the child is killed by SIGSEGV inside the call, so it starts no
  program, reaches neither \<^verbatim>\<open>perror\<close> nor \<^verbatim>\<open>exit\<close>, and has no exit status. The other
  three end in \<^verbatim>\<open>exit(EXIT_FAILURE)\<close>.
\<close>

datatype child_result =
    Pipe_dup2_failed
  | Redirect_failed redir_error
  | Exec_null
  | Exec_failed "string list"
  | Ran "string list" child_io int

text \<open>The exit status of the child; \<open>None\<close> when a signal killed it.\<close>

fun exit_status :: "child_result \<Rightarrow> int option" where
  "exit_status (Ran argv io st) = Some st"
| "exit_status Exec_null = None"
| "exit_status _ = Some 1"

text \<open>
  The state of the shell process: the history, the bytes still to come from the
  terminal, what the shell has written to its standard output and standard error, the
  children it has forked (with the process id and what the child did) and the waits it
  has made, in order, and the number of \<^verbatim>\<open>fork\<close> and \<^verbatim>\<open>pipe\<close> calls so far. A function of
  the shell either returns a value or ends the process with \<^verbatim>\<open>exit\<close>.
\<close>

datatype event = Fork nat child_result | Waitpid nat | Wait

datatype 'a outcome = Return 'a | Exit int

record shell = hist +
  input :: string
  out :: string
  err :: string
  trace :: "event list"
  syscalls :: nat

definition init_shell :: "string \<Rightarrow> shell" where
  "init_shell stdin =
     \<lparr>history = replicate MAX_HISTORY None, history_count = 0, input = stdin,
      out = [], err = [], trace = [], syscalls = 0\<rparr>"

definition perror :: "world \<Rightarrow> string \<Rightarrow> string" where
  "perror w s = s @ '': '' @ errmsg w @ [NL]"

text \<open>\<^verbatim>\<open>printf("%d", n)\<close> for a number that is not negative.\<close>

fun dec :: "nat \<Rightarrow> string" where
  "dec n = (if n < 10 then [''0123456789'' ! n]
            else dec (n div 10) @ [''0123456789'' ! (n mod 10)])"

declare dec.simps [simp del]

section \<open>Tokenizer (sh1.c)\<close>

text \<open>
  \<^verbatim>\<open>strtok\<close> called until it returns NULL: the maximal runs of characters that are not
  delimiters, in order. \<open>cur\<close> is the token being read.
\<close>

definition TOKEN_DELIM :: string where
  "TOKEN_DELIM = [CHR '' '', TAB, CR, NL, BEL]"

fun strtok_from :: "string \<Rightarrow> string \<Rightarrow> string \<Rightarrow> string list" where
  "strtok_from delim cur [] = (if cur = [] then [] else [cur])"
| "strtok_from delim cur (c # cs) =
     (if c \<in> set delim
      then (if cur = [] then strtok_from delim [] cs else cur # strtok_from delim [] cs)
      else strtok_from delim (cur @ [c]) cs)"

definition sh_split_line :: "string \<Rightarrow> string list" where
  "sh_split_line line = strtok_from TOKEN_DELIM [] line"

section \<open>Redirection (sh1.c)\<close>

definition is_redirect :: "string \<Rightarrow> bool" where
  "is_redirect t = (t = ''<'' \<or> t = ''>>'' \<or> t = ''>'')"

text \<open>
  The \<^verbatim>\<open>open\<close> and \<^verbatim>\<open>dup2\<close> calls of one operator: the error of the first call that fails.
\<close>

definition redirect ::
  "world \<Rightarrow> string \<Rightarrow> open_mode \<Rightarrow> redir_error option" where
  "redirect w f m =
     (if \<not> open_ok w f m then Some Open_failed
      else if \<not> dup2_ok w (File f m) then Some Dup2_failed
      else None)"

text \<open>
  \<^verbatim>\<open>handle_redirection\<close> runs in the child. It scans the tokens from the left; at an
  operator it opens the next token as a file, rebinds the stream, removes both tokens
  and looks again at the same index. The result is the error of the first \<^verbatim>\<open>return -1\<close>,
  or the remaining tokens and the child's streams.
\<close>

fun handle_redirection ::
  "world \<Rightarrow> child_io \<Rightarrow> string list \<Rightarrow> redir_error + (string list \<times> child_io)" where
  "handle_redirection w io [] = Inr ([], io)"
| "handle_redirection w io (a # args) =
     (if a = ''<'' then
        (case args of
           [] \<Rightarrow> Inl Missing_target
         | f # rest \<Rightarrow>
             (case redirect w f Open_rdonly of
                Some e \<Rightarrow> Inl e
              | None \<Rightarrow> handle_redirection w (io\<lparr>io_stdin := File f Open_rdonly\<rparr>) rest))
      else if a = ''>>'' then
        (case args of
           [] \<Rightarrow> Inl Missing_target
         | f # rest \<Rightarrow>
             (case redirect w f Open_append of
                Some e \<Rightarrow> Inl e
              | None \<Rightarrow> handle_redirection w (io\<lparr>io_stdout := File f Open_append\<rparr>) rest))
      else if a = ''>'' then
        (case args of
           [] \<Rightarrow> Inl Missing_target
         | f # rest \<Rightarrow>
             (case redirect w f Open_trunc of
                Some e \<Rightarrow> Inl e
              | None \<Rightarrow> handle_redirection w (io\<lparr>io_stdout := File f Open_trunc\<rparr>) rest))
      else
        (case handle_redirection w io args of
           Inl e \<Rightarrow> Inl e
         | Inr (res, io') \<Rightarrow> Inr (a # res, io')))"

text \<open>
  The three operators differ in the mode of \<^verbatim>\<open>open\<close> and in the stream they rebind; the
  two functions below name the difference, for the statements about the scan.
\<close>

definition redirect_mode :: "string \<Rightarrow> open_mode" where
  "redirect_mode a =
     (if a = ''<'' then Open_rdonly else if a = ''>>'' then Open_append else Open_trunc)"

definition rebind :: "string \<Rightarrow> string \<Rightarrow> child_io \<Rightarrow> child_io" where
  "rebind a f io =
     (if a = ''<'' then io\<lparr>io_stdin := File f Open_rdonly\<rparr>
      else io\<lparr>io_stdout := File f (redirect_mode a)\<rparr>)"

text \<open>
  What the scan does to a token list, said without the system: the pairs of an operator
  and the token it takes as its file name, in order; the tokens left when every such
  pair is removed; and the number of operators at the end of the list.
\<close>

fun targets :: "string list \<Rightarrow> (string \<times> string) list" where
  "targets (a # f # rest) = (if is_redirect a then (a, f) # targets rest else targets (f # rest))"
| "targets [a] = []"
| "targets [] = []"

fun residual :: "string list \<Rightarrow> string list" where
  "residual (a # f # rest) = (if is_redirect a then residual rest else a # residual (f # rest))"
| "residual [a] = (if is_redirect a then [] else [a])"
| "residual [] = []"

definition trailing_ops :: "string list \<Rightarrow> nat" where
  "trailing_ops args = length (takeWhile is_redirect (rev args))"

text \<open>The streams after the \<^verbatim>\<open>dup2\<close> calls of the pairs, a later pair overriding an earlier.\<close>

definition rebind_all :: "(string \<times> string) list \<Rightarrow> child_io \<Rightarrow> child_io" where
  "rebind_all ts io = foldl (\<lambda>io (a, f). rebind a f io) io ts"

text \<open>Whether every \<^verbatim>\<open>open\<close> and \<^verbatim>\<open>dup2\<close> of the pairs succeeds.\<close>

definition targets_ok :: "world \<Rightarrow> (string \<times> string) list \<Rightarrow> bool" where
  "targets_ok w ts = list_all (\<lambda>(a, f). redirect w f (redirect_mode a) = None) ts"

section \<open>Commands and pipelines (sh1.c)\<close>

text \<open>
  The child after its streams are set up: \<^verbatim>\<open>handle_redirection\<close>, then \<^verbatim>\<open>execvp\<close> on the
  remaining tokens. With no token left \<^verbatim>\<open>args[0]\<close> is NULL, and the code passes it to
  \<^verbatim>\<open>execvp\<close> as it is.
\<close>

definition child_exec :: "world \<Rightarrow> child_io \<Rightarrow> string list \<Rightarrow> child_result" where
  "child_exec w io seg =
     (case handle_redirection w io seg of
        Inl e \<Rightarrow> Redirect_failed e
      | Inr (argv, io') \<Rightarrow>
          (if argv = [] then Exec_null
           else (case program w argv io' of
                   None \<Rightarrow> Exec_failed argv
                 | Some st \<Rightarrow> Ran argv io' st)))"

text \<open>
  Child \<open>i\<close> of a pipeline of \<open>n\<close> commands: its streams once both \<^verbatim>\<open>dup2\<close> calls onto
  the pipes have succeeded, and what it does.
\<close>

definition pipe_io :: "nat \<Rightarrow> nat \<Rightarrow> child_io" where
  "pipe_io n i =
     \<lparr>io_stdin = (if i \<noteq> 0 then Pipe_read (i - 1) else Inherited),
      io_stdout = (if i \<noteq> n - 1 then Pipe_write i else Inherited)\<rparr>"

definition pipeline_child :: "world \<Rightarrow> nat \<Rightarrow> nat \<Rightarrow> string list \<Rightarrow> child_result" where
  "pipeline_child w n i seg =
     (if i \<noteq> 0 \<and> \<not> dup2_ok w (Pipe_read (i - 1)) then Pipe_dup2_failed
      else if i \<noteq> n - 1 \<and> \<not> dup2_ok w (Pipe_write i) then Pipe_dup2_failed
      else child_exec w (pipe_io n i) seg)"

text \<open>A trailing \<^verbatim>\<open>&\<close> is removed and marks the pipeline as a background one.\<close>

definition strip_background :: "string list \<Rightarrow> bool \<times> string list" where
  "strip_background args =
     (if args \<noteq> [] \<and> last args = ''&'' then (True, butlast args) else (False, args))"

definition num_commands :: "string list \<Rightarrow> nat" where
  "num_commands args = 1 + length (filter (\<lambda>t. t = ''|'') args)"

text \<open>
  \<^verbatim>\<open>cmds\<close>: every \<^verbatim>\<open>|\<close> is overwritten by NULL and the next segment starts behind it.
\<close>

fun split_pipes :: "string list \<Rightarrow> string list list" where
  "split_pipes [] = [[]]"
| "split_pipes (t # ts) =
     (if t = ''|'' then [] # split_pipes ts
      else (case split_pipes ts of
              [] \<Rightarrow> [[t]]
            | seg # segs \<Rightarrow> (t # seg) # segs))"

text \<open>The segments written back as one token list, a \<^verbatim>\<open>|\<close> between neighbours.\<close>

fun join_pipes :: "string list list \<Rightarrow> string list" where
  "join_pipes [] = []"
| "join_pipes [seg] = seg"
| "join_pipes (seg # seg' # segs) = seg @ ''|'' # join_pipes (seg' # segs)"

text \<open>The loop creating the pipes; \<open>False\<close> when \<^verbatim>\<open>pipe\<close> failed and the shell exits.\<close>

fun make_pipes :: "world \<Rightarrow> nat \<Rightarrow> shell \<Rightarrow> bool \<times> shell" where
  "make_pipes w 0 s = (True, s)"
| "make_pipes w (Suc k) s =
     (if pipe_ok w (syscalls s)
      then make_pipes w k (s\<lparr>syscalls := syscalls s + 1\<rparr>)
      else (False, s\<lparr>syscalls := syscalls s + 1, err := err s @ perror w ''pipe''\<rparr>))"

text \<open>
  The loop forking one child per segment, from child \<open>i\<close> on; \<open>False\<close> when \<^verbatim>\<open>fork\<close>
  failed and the shell exits.
\<close>

fun fork_children ::
  "world \<Rightarrow> nat \<Rightarrow> nat \<Rightarrow> string list list \<Rightarrow> shell \<Rightarrow> bool \<times> shell" where
  "fork_children w n i [] s = (True, s)"
| "fork_children w n i (seg # segs) s =
     (if fork_ok w (syscalls s)
      then fork_children w n (Suc i) segs
             (s\<lparr>syscalls := syscalls s + 1,
                trace := trace s @ [Fork (pid_of w (syscalls s)) (pipeline_child w n i seg)]\<rparr>)
      else (False, s\<lparr>syscalls := syscalls s + 1, err := err s @ perror w ''fork''\<rparr>))"

definition sh_execute_simple :: "world \<Rightarrow> string list \<Rightarrow> shell \<Rightarrow> int outcome \<times> shell" where
  "sh_execute_simple w args0 s =
     (if args0 = [] then (Return 0, s)
      else
        (case strip_background args0 of (background, args) \<Rightarrow>
           if num_commands args = 1 then
             (if fork_ok w (syscalls s) then
                (let pid = pid_of w (syscalls s);
                     s1 = s\<lparr>syscalls := syscalls s + 1,
                            trace := trace s @
                              [Fork pid (child_exec w \<lparr>io_stdin = Inherited, io_stdout = Inherited\<rparr> args)]\<rparr>
                 in if \<not> background
                    then (Return 0, s1\<lparr>trace := trace s1 @ [Waitpid pid]\<rparr>)
                    else (Return 0, s1\<lparr>out := out s1 @ ''[Background pid '' @ dec pid @ '']'' @ [NL]\<rparr>))
              else (Return 0, s\<lparr>syscalls := syscalls s + 1, err := err s @ perror w ''fork''\<rparr>))
           else
             (case make_pipes w (num_commands args - 1) s of
                (False, s1) \<Rightarrow> (Exit 1, s1)
              | (True, s1) \<Rightarrow>
                  (case fork_children w (num_commands args) 0 (split_pipes args) s1 of
                     (False, s2) \<Rightarrow> (Exit 1, s2)
                   | (True, s2) \<Rightarrow>
                       if \<not> background
                       then (Return 0, s2\<lparr>trace := trace s2 @ replicate (num_commands args) Wait\<rparr>)
                       else (Return 0, s2\<lparr>out := out s2 @ ''[Background pipeline started]'' @ [NL]\<rparr>)))))"

section \<open>Logical operators (sh1.c)\<close>

definition is_logical :: "string \<Rightarrow> bool" where
  "is_logical t = (t = ''&&'' \<or> t = ''||'')"

text \<open>
  The loop of \<^verbatim>\<open>sh_execute_logical\<close>; \<open>args\<close> are the tokens from \<^verbatim>\<open>start\<close> on and
  \<open>ret\<close> is the value of \<^verbatim>\<open>ret\<close> when the loop condition is tested.
\<close>

function sh_execute_logical_from ::
  "world \<Rightarrow> int \<Rightarrow> string list \<Rightarrow> shell \<Rightarrow> int outcome \<times> shell" where
  "sh_execute_logical_from w ret args s =
     (if args = [] then (Return ret, s)
      else
        (case sh_execute_simple w (takeWhile (\<lambda>t. \<not> is_logical t) args) s of
           (Exit c, s1) \<Rightarrow> (Exit c, s1)
         | (Return r, s1) \<Rightarrow>
             (case dropWhile (\<lambda>t. \<not> is_logical t) args of
                [] \<Rightarrow> (Return r, s1)
              | op # rest \<Rightarrow>
                  if op = ''&&'' then
                    (if r \<noteq> 0 then (Return r, s1) else sh_execute_logical_from w r rest s1)
                  else if op = ''||'' then
                    (if r = 0 then (Return r, s1) else sh_execute_logical_from w r rest s1)
                  else sh_execute_logical_from w r rest s1)))"
  by pat_completeness auto
termination
proof -
  have shorter: "length ys < length xs"
    if "dropWhile P xs = y # ys" for P and xs ys :: "string list" and y
    using that length_dropWhile_le [of P xs] by simp
  show ?thesis
    by (relation "measure (\<lambda>(w, ret, args, s). length args)") (auto dest: shorter)
qed

declare sh_execute_logical_from.simps [simp del]

definition sh_execute_logical :: "world \<Rightarrow> string list \<Rightarrow> shell \<Rightarrow> int outcome \<times> shell" where
  "sh_execute_logical w args s = sh_execute_logical_from w 0 args s"

section \<open>Line editor (sh1.c)\<close>

text \<open>
  \<^verbatim>\<open>enableRawMode\<close> and \<^verbatim>\<open>disableRawMode\<close> change how the terminal delivers the bytes,
  not which bytes the loop reads; the terminal mode is not part of the model.
\<close>

definition BUFFER_SIZE :: nat where
  "BUFFER_SIZE = 1024"

definition MAX_MATCHES :: nat where
  "MAX_MATCHES = 50"

text \<open>The \<open>n\<close> bytes a \<^verbatim>\<open>malloc\<close> or \<^verbatim>\<open>realloc\<close> adds behind offset \<open>off\<close>: not initialised.\<close>

definition fresh :: "world \<Rightarrow> nat \<Rightarrow> nat \<Rightarrow> string" where
  "fresh w off n = map (uninit w) [off..<off + n]"

text \<open>
  \<^verbatim>\<open>buffer[pos++] = c\<close> for each character of \<open>cs\<close>. The code does not check the size of
  the buffer here; a write behind its end is dropped in the model.
\<close>

fun write_at :: "string \<Rightarrow> nat \<Rightarrow> string \<Rightarrow> string" where
  "write_at buf pos [] = buf"
| "write_at buf pos (c # cs) = write_at (buf[pos := c]) (Suc pos) cs"

text \<open>
  \<^verbatim>\<open>autocomplete\<close> returns the new position; it also changes the buffer and prints.
  The result is the buffer, the position and the text printed.
\<close>

definition autocomplete :: "world \<Rightarrow> string \<Rightarrow> nat \<Rightarrow> string \<times> nat \<times> string" where
  "autocomplete w buffer pos =
     (let len = length (takeWhile (\<lambda>c. c \<noteq> CHR '' '') (rev (take pos buffer)));
          start = pos - len;
          partial = cstr (take len (drop start buffer))
      in case dir_entries w of
           None \<Rightarrow> (buffer, pos, [])
         | Some names \<Rightarrow>
             (let matches = take MAX_MATCHES (filter (\<lambda>name. prefix partial name) names)
              in if length matches = 0 then (buffer, pos, [])
                 else if length matches = 1 then
                   (let added = drop len (hd matches)
                    in (write_at buffer pos added, pos + length added, added))
                 else
                   (buffer, pos,
                    [NL] @ concat (map (\<lambda>m. m @ [TAB]) matches) @ [NL] @ ''utsh$ '' @ cstr buffer)))"

text \<open>
  The loop of \<^verbatim>\<open>sh_read_line\<close> over the bytes still to come from the terminal; at the
  end of the input \<^verbatim>\<open>read\<close> returns 0 and the loop is left with the buffer as it is.
  The result is the buffer, the input left and the text echoed.
\<close>

fun read_loop ::
  "world \<Rightarrow> string \<Rightarrow> nat \<Rightarrow> string \<Rightarrow> string \<Rightarrow> string \<times> string \<times> string" where
  "read_loop w buffer pos echo [] = (buffer, [], echo)"
| "read_loop w buffer pos echo (c # rest) =
     (if c = CR \<or> c = NL then (buffer[pos := NUL], rest, echo @ [NL])
      else
        (case (if c = DEL \<or> c = BS then
                 (if pos > 0 then (buffer, pos - 1, echo @ [BS, CHR '' '', BS])
                  else (buffer, pos, echo))
               else if c = TAB then
                 (case autocomplete w buffer pos of (b, p, e) \<Rightarrow> (b, p, echo @ e))
               else (buffer[pos := c], pos + 1, echo @ [c])) of
           (buffer1, pos1, echo1) \<Rightarrow>
             read_loop w
               (if pos1 \<ge> length buffer1 - 1
                then buffer1 @ fresh w (length buffer1) BUFFER_SIZE else buffer1)
               pos1 echo1 rest))"

text \<open>
  \<^verbatim>\<open>sh_read_line\<close> returns the buffer, which its caller reads as a C string. (Where the
  buffer holds no NUL the caller reads past its end; the model stops at the end.)
\<close>

definition sh_read_line :: "world \<Rightarrow> shell \<Rightarrow> string \<times> shell" where
  "sh_read_line w s =
     (case read_loop w (fresh w 0 BUFFER_SIZE) 0 [] (input s) of
        (buffer, rest, echo) \<Rightarrow> (cstr buffer, s\<lparr>input := rest, out := out s @ echo\<rparr>))"

section \<open>Main loop (sh1.c)\<close>

text \<open>
  \<^verbatim>\<open>atoi\<close> of the C library as glibc has it on a 64-bit system: \<^verbatim>\<open>(int) strtol(s, NULL, 10)\<close>,
  where \<^verbatim>\<open>strtol\<close> skips white space, reads a sign and the digits that follow, and keeps
  the value within the range of \<^verbatim>\<open>long\<close>; the conversion to \<^verbatim>\<open>int\<close> keeps the low 32 bits.
\<close>

definition isdigit :: "char \<Rightarrow> bool" where
  "isdigit c = (c \<in> set ''0123456789'')"

definition isspace :: "char \<Rightarrow> bool" where
  "isspace c = (c \<in> set [CHR '' '', TAB, NL, CHR 0x0B, CHR 0x0C, CR])"

fun digits_value :: "int \<Rightarrow> string \<Rightarrow> int" where
  "digits_value acc [] = acc"
| "digits_value acc (c # cs) =
     (if isdigit c then digits_value (acc * 10 + (of_char c - 48)) cs else acc)"

definition LONG_MAX :: int where
  "LONG_MAX = 2 ^ 63 - 1"

definition INT_MAX :: int where
  "INT_MAX = 2 ^ 31 - 1"

definition to_int :: "int \<Rightarrow> int" where
  "to_int x = (x + 2 ^ 31) mod 2 ^ 32 - 2 ^ 31"

definition strtol :: "string \<Rightarrow> int" where
  "strtol s =
     (case dropWhile isspace s of
        [] \<Rightarrow> 0
      | c # cs \<Rightarrow>
          if c = CHR ''-'' then max (- digits_value 0 cs) (- LONG_MAX - 1)
          else if c = CHR ''+'' then min (digits_value 0 cs) LONG_MAX
          else min (digits_value 0 (c # cs)) LONG_MAX)"

definition atoi :: "string \<Rightarrow> int" where
  "atoi s = to_int (strtol s)"

definition recall_requested :: "string \<Rightarrow> bool" where
  "recall_requested line =
     (case line of
        c0 # c1 # rest \<Rightarrow> c0 = CHR ''!'' \<and> isdigit c1
      | _ \<Rightarrow> False)"

text \<open>
  One pass through the body of the loop of \<^verbatim>\<open>sh_loop\<close>, from the line read on. \<open>None\<close>
  is the \<^verbatim>\<open>continue\<close> after a failed recall, which leaves \<^verbatim>\<open>status\<close> as it was.
\<close>

definition sh_loop_body :: "world \<Rightarrow> string \<Rightarrow> shell \<Rightarrow> int outcome option \<times> shell" where
  "sh_loop_body w line0 s0 =
     (case (if recall_requested line0 then
              (case get_history_command (atoi (tl line0)) s0 of
                 Some history_command \<Rightarrow>
                   Some (history_command, s0\<lparr>out := out s0 @ history_command @ [NL]\<rparr>)
               | None \<Rightarrow> None)
            else Some (line0, s0)) of
        None \<Rightarrow> (None, s0\<lparr>err := err s0 @ ''No such command in history.'' @ [NL]\<rparr>)
      | Some (line, s) \<Rightarrow>
          (case sh_execute_logical w (sh_split_line (chomp line)) (add_to_history MAX_HISTORY line s) of
             (r, s') \<Rightarrow> (Some r, s')))"

text \<open>
  \<^verbatim>\<open>sh_loop\<close> with a bound on the number of lines read: \<open>None\<close> when the loop is still
  running after \<open>fuel\<close> lines. \<open>status\<close> is the value of the local variable when the pass
  begins. \<open>Return ()\<close> is the end of the loop, \<open>Exit c\<close> a call of \<^verbatim>\<open>exit\<close> in the shell.
\<close>

fun sh_loop :: "nat \<Rightarrow> world \<Rightarrow> int \<Rightarrow> shell \<Rightarrow> (unit outcome \<times> shell) option" where
  "sh_loop 0 w status s = None"
| "sh_loop (Suc fuel) w status s =
     (case sh_read_line w (s\<lparr>out := out s @ ''utsh$ ''\<rparr>) of
        (line, s1) \<Rightarrow>
          (case sh_loop_body w line s1 of
             (None, s2) \<Rightarrow>
               if status \<ge> 0 then sh_loop fuel w status s2 else Some (Return (), s2)
           | (Some (Exit c), s2) \<Rightarrow> Some (Exit c, s2)
           | (Some (Return status'), s2) \<Rightarrow>
               if status' \<ge> 0 then sh_loop fuel w status' s2 else Some (Return (), s2)))"

text \<open>
  \<^verbatim>\<open>main\<close>: the exit status of the shell and its last state, or \<open>None\<close> when the shell is
  still running after \<open>fuel\<close> lines.
\<close>

definition main :: "nat \<Rightarrow> world \<Rightarrow> string \<Rightarrow> (int \<times> shell) option" where
  "main fuel w stdin =
     (case sh_loop fuel w (uninit_status w) (init_shell stdin) of
        None \<Rightarrow> None
      | Some (Return u, s) \<Rightarrow> Some (0, s)
      | Some (Exit c, s) \<Rightarrow> Some (c, s))"

section \<open>The simple variant of the shell (sh.c): its history\<close>

text \<open>
  The first program of the repository keeps its own history, a growing array without
  eviction, and has a built-in command \<^verbatim>\<open>history\<close>. Running a command does not touch the
  history, so the functions below follow one line read through the body of the loop of
  its \<^verbatim>\<open>main\<close> and keep the history and what \<^verbatim>\<open>print_history\<close> prints.
\<close>

record simple_shell =
  sh_history :: "string list"
  sh_out :: string

definition add_history :: "string \<Rightarrow> simple_shell \<Rightarrow> simple_shell" where
  "add_history line s = s\<lparr>sh_history := sh_history s @ [chomp line]\<rparr>"

definition print_history :: "simple_shell \<Rightarrow> simple_shell" where
  "print_history s =
     s\<lparr>sh_out := sh_out s @
        concat (map (\<lambda>(i, c). dec (i + 1) @ '' '' @ c @ [NL]) (enumerate 0 (sh_history s)))\<rparr>"

definition split_line :: "string \<Rightarrow> string \<Rightarrow> string list" where
  "split_line line delim = strtok_from delim [] line"

text \<open>Leading blanks and tabs, then trailing blanks, tabs and newlines, are removed.\<close>

definition trim_command :: "string \<Rightarrow> string" where
  "trim_command cmd_str =
     rev (dropWhile (\<lambda>c. c = CHR '' '' \<or> c = TAB \<or> c = NL)
            (rev (dropWhile (\<lambda>c. c = CHR '' '' \<or> c = TAB) cmd_str)))"

definition main_command :: "string \<Rightarrow> simple_shell \<Rightarrow> simple_shell" where
  "main_command cmd_str0 s =
     (let cmd_str = trim_command cmd_str0 in
      if cmd_str = [] then s
      else if cmd_str = ''history'' then print_history s
      else add_history cmd_str s)"

definition main_line :: "string \<Rightarrow> simple_shell \<Rightarrow> simple_shell" where
  "main_line line s =
     (if dropWhile (\<lambda>c. c = CHR '' '' \<or> c = TAB \<or> c = NL) line = [] then s
      else foldl (\<lambda>s c. main_command c s) s (split_line line '';''))"

section \<open>An example world\<close>

text \<open>
  Every system call succeeds; \<^verbatim>\<open>false\<close> terminates with status 1, a few other programs
  with status 0, and no other program is found. Fresh memory is zero.
\<close>

definition example_world :: world where
  "example_world =
     \<lparr>open_ok = (\<lambda>f m. True), dup2_ok = (\<lambda>e. True), fork_ok = (\<lambda>n. True),
      pipe_ok = (\<lambda>n. True),
      program = (\<lambda>argv io.
         if argv = [] then None
         else if hd argv = ''false'' then Some 1
         else if hd argv \<in> set [''true'', ''echo'', ''ls'', ''cat'', ''sort''] then Some 0
         else None),
      pid_of = (\<lambda>n. 100 + n), errmsg = ''error'',
      dir_entries = Some [''foo.txt'', ''foobar.txt''],
      uninit = (\<lambda>n. NUL), uninit_status = 0\<rparr>"

section \<open>Properties of the history\<close>

lemma shift_history_eq:
  "1 \<le> i \<Longrightarrow> i \<le> cap \<Longrightarrow> length h = cap \<Longrightarrow>
   shift_history cap i h = take (i - 1) h @ drop i h @ [last h]"
proof (induction cap i h rule: shift_history.induct)
  case (1 cap i h)
  show ?case
  proof (cases "i < cap")
    case True
    let ?h' = "h[i - 1 := h ! i]"
    have len: "length ?h' = cap" using 1 by simp
    have ih: "shift_history cap (Suc i) ?h' = take i ?h' @ drop (Suc i) ?h' @ [last ?h']"
      using "1.IH"[OF True] "1.prems" True len by simp
    have t: "take i ?h' = take (i - 1) h @ [h ! i]"
      using "1.prems" True by (cases i) (simp_all add: take_Suc_conv_app_nth)
    have d: "drop (Suc i) ?h' = drop (Suc i) h" by simp
    have ne: "h \<noteq> []" using "1.prems" True by auto
    have l: "last ?h' = last h" using "1.prems" True ne
      by (auto simp add: last_list_update)
    have d2: "drop i h = h ! i # drop (Suc i) h" using "1.prems" True
      by (simp add: Cons_nth_drop_Suc)
    have "shift_history cap i h = shift_history cap (Suc i) ?h'"
      using True by (subst shift_history.simps) simp
    also note ih
    also have "take i ?h' @ drop (Suc i) ?h' @ [last ?h'] = take (i - 1) h @ drop i h @ [last h]"
      unfolding t d l d2 by simp
    finally show ?thesis .
  next
    case False
    with "1.prems" have "i = cap" by simp
    moreover have "h \<noteq> []" using "1.prems" by auto
    moreover have "take (cap - 1) h = butlast h"
      using "1.prems" by (simp add: butlast_conv_take)
    moreover have "drop cap h = []"
      using "1.prems" by simp
    ultimately show ?thesis
      by (subst shift_history.simps) simp
  qed
qed

lemma shift_history_1:
  "0 < cap \<Longrightarrow> length h = cap \<Longrightarrow> shift_history cap (Suc 0) h = tl h @ [last h]"
  using shift_history_eq[of 1 cap h] by (simp add: drop_Suc)


lemma length_entries: "history_inv cap s \<Longrightarrow> length (entries s) = history_count s"
  by (simp add: entries_def history_inv_def)

lemma add_to_history_entries:
  assumes "history_inv cap s"
  shows "entries (add_to_history cap cmd s) =
     (if chomp cmd = [] then entries s
      else if length (entries s) < cap then entries s @ [chomp cmd]
      else tl (entries s) @ [chomp cmd])"
proof -
  let ?h = "history s" and ?n = "history_count s"
  from assms have cap: "0 < cap" and len: "length ?h = cap" and n: "?n \<le> cap"
    by (simp_all add: history_inv_def)
  show ?thesis
  proof (cases "chomp cmd = []")
    case True
    then show ?thesis by (simp add: add_to_history_def)
  next
    case ne: False
    show ?thesis
    proof (cases "?n < cap")
      case True
      then have "take (Suc ?n) (?h[?n := Some (chomp cmd)]) = take ?n ?h @ [Some (chomp cmd)]"
        using len by (simp add: take_Suc_conv_app_nth)
      then show ?thesis using True ne assms
        by (simp add: add_to_history_def length_entries) (simp add: entries_def)
    next
      case False
      with n have full: "?n = cap" by simp
      have "shift_history cap (Suc 0) ?h = tl ?h @ [last ?h]"
        using shift_history_1[OF cap len] .
      then have "(shift_history cap (Suc 0) ?h)[cap - Suc 0 := Some (chomp cmd)] =
          tl ?h @ [Some (chomp cmd)]"
        using len by (simp add: list_update_append)
      then show ?thesis using False ne assms full len cap
        by (simp add: add_to_history_def length_entries) (simp add: entries_def map_tl)
    qed
  qed
qed

lemma add_to_history_inv:
  assumes "history_inv cap s"
  shows "history_inv cap (add_to_history cap cmd s)"
proof -
  let ?h = "history s" and ?n = "history_count s"
  from assms have cap: "0 < cap" and len: "length ?h = cap" and n: "?n \<le> cap"
    and allh: "list_all (\<lambda>e. e \<noteq> None) (take ?n ?h)"
    by (simp_all add: history_inv_def)
  show ?thesis
  proof (cases "chomp cmd = []")
    case True
    then show ?thesis using assms by (simp add: add_to_history_def)
  next
    case ne: False
    show ?thesis
    proof (cases "?n < cap")
      case True
      then have "take (Suc ?n) (?h[?n := Some (chomp cmd)]) = take ?n ?h @ [Some (chomp cmd)]"
        using len by (simp add: take_Suc_conv_app_nth)
      then show ?thesis using True ne cap len allh
        by (simp add: add_to_history_def history_inv_def)
    next
      case False
      with n have full: "?n = cap" by simp
      have "shift_history cap (Suc 0) ?h = tl ?h @ [last ?h]"
        using shift_history_1[OF cap len] .
      then have eq: "(shift_history cap (Suc 0) ?h)[cap - Suc 0 := Some (chomp cmd)] =
          tl ?h @ [Some (chomp cmd)]"
        using len by (simp add: list_update_append)
      have "list_all (\<lambda>e. e \<noteq> None) (tl ?h)"
        using allh full len by (cases ?h) simp_all
      then show ?thesis using False ne cap len full
        by (simp add: add_to_history_def history_inv_def eq)
    qed
  qed
qed

lemma lastn_snoc:
  "lastn cap (xs @ [c]) =
     (if length (lastn cap xs) < cap then lastn cap xs @ [c] else tl (lastn cap xs) @ [c])"
  if "0 < cap"
  using that by (auto simp add: lastn_def tl_drop drop_Suc Suc_diff_le)

lemma record_all_entries:
  "history_inv cap s \<Longrightarrow>
   history_inv cap (record_all cap ls s) \<and>
   entries (record_all cap ls s) = lastn cap (entries s @ recorded ls)"
proof (induction ls rule: rev_induct)
  case Nil
  have "length (entries s) = history_count s"
    using Nil by (rule length_entries)
  moreover have "history_count s \<le> cap"
    using Nil by (simp add: history_inv_def)
  ultimately show ?case using Nil
    by (simp add: record_all_def recorded_def lastn_def)
next
  case (snoc l ls)
  then have inv: "history_inv cap (record_all cap ls s)"
    and ent: "entries (record_all cap ls s) = lastn cap (entries s @ recorded ls)"
    by simp_all
  have step: "record_all cap (ls @ [l]) s = add_to_history cap l (record_all cap ls s)"
    by (simp add: record_all_def)
  have cap: "0 < cap" using inv by (simp add: history_inv_def)
  show ?case
  proof (cases "chomp l = []")
    case True
    then show ?thesis using inv ent
      by (simp add: step add_to_history_inv add_to_history_entries recorded_def)
  next
    case False
    then have r: "recorded (ls @ [l]) = recorded ls @ [chomp l]"
      by (simp add: recorded_def)
    show ?thesis using inv ent False
      by (simp add: step add_to_history_inv add_to_history_entries r
          lastn_snoc[OF cap, of "entries s @ recorded ls", simplified])
  qed
qed


lemma get_history_command_entries:
  assumes "history_inv cap s"
  shows "get_history_command n s =
     (if 1 \<le> n \<and> n \<le> int (length (entries s)) then Some (entries s ! nat (n - 1)) else None)"
proof (cases "1 \<le> n \<and> n \<le> int (history_count s)")
  case True
  then have k: "nat (n - 1) < history_count s" by auto
  from assms have "list_all (\<lambda>e. e \<noteq> None) (take (history_count s) (history s))"
    and len: "history_count s \<le> length (history s)"
    by (simp_all add: history_inv_def)
  then have "take (history_count s) (history s) ! nat (n - 1) \<noteq> None"
    using k by (simp add: list_all_length)
  then have "history s ! nat (n - 1) \<noteq> None" using k by simp
  then show ?thesis using True k len assms
    by (auto simp add: get_history_command_def length_entries entries_def)
next
  case False
  then show ?thesis using assms
    by (auto simp add: get_history_command_def length_entries)
qed

lemma empty_hist_inv: "0 < cap \<Longrightarrow> history_inv cap (empty_hist cap)"
  by (simp add: history_inv_def empty_hist_def)

lemma entries_empty_hist: "entries (empty_hist cap) = []"
  by (simp add: entries_def empty_hist_def)

lemma init_shell_inv: "history_inv MAX_HISTORY (init_shell stdin)"
  by (simp add: history_inv_def init_shell_def MAX_HISTORY_def)

lemma entries_init_shell: "entries (init_shell stdin) = []"
  by (simp add: entries_def init_shell_def)

text \<open>
  Claim C4. \<^verbatim>\<open>add_to_history\<close> removes one trailing newline from the line. An empty rest
  changes nothing. Otherwise the rest becomes the newest entry, and when 50 entries are
  resident the oldest one, and only it, is dropped. So a history that has the shape
  \<open>history_inv\<close> keeps it, and after any run of calls the resident entries are the last
  50 of all entries, in the order they were recorded.
\<close>

theorem add_to_history_fifo:
  assumes "history_inv MAX_HISTORY s"
  shows "chomp (l @ [NL]) = l \<and>
     (line = [] \<or> last line \<noteq> NL \<longrightarrow> chomp line = line) \<and>
     (chomp line = [] \<longrightarrow> add_to_history MAX_HISTORY line s = s) \<and>
     entries (add_to_history MAX_HISTORY line s) =
       (if chomp line = [] then entries s
        else if length (entries s) < 50 then entries s @ [chomp line]
        else tl (entries s) @ [chomp line]) \<and>
     history_inv MAX_HISTORY (add_to_history MAX_HISTORY line s) \<and>
     length (entries (record_all MAX_HISTORY ls s)) \<le> 50 \<and>
     entries (record_all MAX_HISTORY ls s) = lastn 50 (entries s @ recorded ls)"
proof -
  have "chomp (l @ [NL]) = l"
    by (simp add: chomp_def)
  moreover have "line = [] \<or> last line \<noteq> NL \<longrightarrow> chomp line = line"
    by (auto simp add: chomp_def)
  moreover have "chomp line = [] \<longrightarrow> add_to_history MAX_HISTORY line s = s"
    by (simp add: add_to_history_def)
  moreover have "entries (add_to_history MAX_HISTORY line s) =
       (if chomp line = [] then entries s
        else if length (entries s) < 50 then entries s @ [chomp line]
        else tl (entries s) @ [chomp line])"
    using add_to_history_entries [OF assms, of line] by (simp add: MAX_HISTORY_def)
  moreover have "history_inv MAX_HISTORY (add_to_history MAX_HISTORY line s)"
    using assms by (rule add_to_history_inv)
  moreover have all: "entries (record_all MAX_HISTORY ls s) = lastn 50 (entries s @ recorded ls)"
    using record_all_entries [OF assms, of ls] by (simp add: MAX_HISTORY_def)
  moreover have "length (entries (record_all MAX_HISTORY ls s)) \<le> 50"
    unfolding all by (simp add: lastn_def)
  ultimately show ?thesis by blast
qed

theorem add_to_history_fifo_witness:
  "history_inv MAX_HISTORY (init_shell []) \<and>
   add_to_history MAX_HISTORY [NL] (init_shell []) = init_shell [] \<and>
   entries (add_to_history MAX_HISTORY (''ls'' @ [NL]) (init_shell [])) = [''ls''] \<and>
   entries (record_all MAX_HISTORY (''first'' # replicate 49 ''x'' @ [''last'']) (init_shell [])) =
     replicate 49 ''x'' @ [''last'']"
  using add_to_history_fifo [OF init_shell_inv [of "[]"], where line = "[NL]"
      and ls = "''first'' # replicate 49 ''x'' @ [''last'']"]
    add_to_history_fifo [OF init_shell_inv [of "[]"], where line = "''ls'' @ [NL]"]
  by (simp add: init_shell_inv entries_init_shell chomp_def recorded_def lastn_def)

text \<open>
  Claim C3 fails: \<^verbatim>\<open>get_history_command\<close> indexes the array of resident entries, and
  \<^verbatim>\<open>add_to_history\<close> moves every entry one slot down when it drops the oldest. With two
  slots, after \<open>a\<close>, \<open>b\<close>, \<open>c\<close>, index 1 gives \<open>b\<close> (not a miss) and index 3 is a miss
  (not \<open>c\<close>); with the 50 slots of the shell, after 51 lines, index 1 gives the second
  line and index 51 is a miss.
\<close>

theorem recall_counterexample:
  "get_history_command 1 (record_all 2 [''a'', ''b'', ''c''] (empty_hist 2)) = Some ''b'' \<and>
   get_history_command 3 (record_all 2 [''a'', ''b'', ''c''] (empty_hist 2)) = None \<and>
   get_history_command 1
     (record_all MAX_HISTORY (''first'' # replicate 49 ''x'' @ [''last'']) (empty_hist MAX_HISTORY)) = Some ''x'' \<and>
   get_history_command 51
     (record_all MAX_HISTORY (''first'' # replicate 49 ''x'' @ [''last'']) (empty_hist MAX_HISTORY)) = None"
proof -
  have r2: "recorded [''a'', ''b'', ''c''] = [''a'', ''b'', ''c'']"
    by (simp add: recorded_def chomp_def)
  have inv2: "history_inv 2 (record_all 2 [''a'', ''b'', ''c''] (empty_hist 2))"
    and e2: "entries (record_all 2 [''a'', ''b'', ''c''] (empty_hist 2)) = [''b'', ''c'']"
    using record_all_entries [OF empty_hist_inv, of 2 "[''a'', ''b'', ''c'']"]
    by (simp_all add: entries_empty_hist r2 lastn_def)
  let ?ls = "''first'' # replicate 49 ''x'' @ [''last'']"
  have r50: "recorded ?ls = ?ls"
    by (simp add: recorded_def chomp_def)
  have inv50: "history_inv MAX_HISTORY (record_all MAX_HISTORY ?ls (empty_hist MAX_HISTORY))"
    and e50: "entries (record_all MAX_HISTORY ?ls (empty_hist MAX_HISTORY)) = replicate 49 ''x'' @ [''last'']"
    using record_all_entries [OF empty_hist_inv, of MAX_HISTORY ?ls]
    by (simp_all add: entries_empty_hist r50 lastn_def MAX_HISTORY_def)
  show ?thesis
    by (simp add: get_history_command_entries [OF inv2] e2
        get_history_command_entries [OF inv50] e50 nth_append)
qed

text \<open>
  Claim C3 as amended. Index \<open>n\<close> counts the resident entries from the oldest one: after
  any run of calls from the empty history, \<^verbatim>\<open>get_history_command\<close> returns NULL when
  \<open>n \<le> 0\<close> or \<open>n\<close> exceeds the number of resident entries (the smaller of the capacity
  and the number of entries recorded), and otherwise the \<open>n\<close>-th oldest resident entry.
\<close>

theorem recall_indexes_resident_entries:
  assumes "0 < cap"
  shows "get_history_command n (record_all cap ls (empty_hist cap)) =
     (if 1 \<le> n \<and> n \<le> int (min cap (length (recorded ls)))
      then Some (recorded ls ! (length (recorded ls) - min cap (length (recorded ls)) + nat (n - 1)))
      else None)"
proof -
  let ?s = "record_all cap ls (empty_hist cap)"
  have inv: "history_inv cap ?s" and ent: "entries ?s = lastn cap (recorded ls)"
    using record_all_entries [OF empty_hist_inv [OF assms], of ls]
    by (simp_all add: entries_empty_hist)
  have len: "length (lastn cap (recorded ls)) = min cap (length (recorded ls))"
    by (simp add: lastn_def)
  show ?thesis
    unfolding get_history_command_entries [OF inv] ent len
    by (auto simp add: lastn_def min_def)
qed

theorem recall_indexes_resident_entries_witness:
  "0 < (2::nat) \<and>
   get_history_command 2 (record_all 2 [''a'', ''b'', ''c''] (empty_hist 2)) = Some ''c'' \<and>
   get_history_command 0 (record_all 2 [''a'', ''b'', ''c''] (empty_hist 2)) = None"
  using recall_indexes_resident_entries [of 2 2 "[''a'', ''b'', ''c'']"]
    recall_indexes_resident_entries [of 2 0 "[''a'', ''b'', ''c'']"]
  by (simp add: recorded_def chomp_def)

section \<open>Properties of the redirection scan\<close>

lemma handle_redirection_operator:
  assumes "is_redirect a"
  shows "handle_redirection w io (a # args) =
     (case args of
        [] \<Rightarrow> Inl Missing_target
      | f # rest \<Rightarrow>
          (case redirect w f (redirect_mode a) of
             Some e \<Rightarrow> Inl e
           | None \<Rightarrow> handle_redirection w (rebind a f io) rest))"
proof -
  from assms consider "a = ''<''" | "a = ''>>''" | "a = ''>''"
    by (auto simp add: is_redirect_def)
  then show ?thesis
  proof cases
    case 1
    then show ?thesis
      by (cases args) (simp_all add: redirect_mode_def rebind_def split: option.splits)
  next
    case 2
    then show ?thesis
      by (cases args) (simp_all add: redirect_mode_def rebind_def split: option.splits)
  next
    case 3
    then show ?thesis
      by (cases args) (simp_all add: redirect_mode_def rebind_def split: option.splits)
  qed
qed

lemma handle_redirection_word:
  "\<not> is_redirect a \<Longrightarrow>
   handle_redirection w io (a # args) =
     (case handle_redirection w io args of
        Inl e \<Rightarrow> Inl e
      | Inr (res, io') \<Rightarrow> Inr (a # res, io'))"
  by (simp add: is_redirect_def)

declare handle_redirection.simps(2) [simp del]

lemma redirect_not_missing: "redirect w f m \<noteq> Some Missing_target"
  by (simp add: redirect_def)

lemma handle_redirection_no_operator:
  "list_all (\<lambda>t. \<not> is_redirect t) args \<Longrightarrow> handle_redirection w io args = Inr (args, io)"
  by (induction args) (simp_all add: handle_redirection_word)

lemma takeWhile_snoc:
  "takeWhile P (xs @ ys) =
     (if list_all P xs then xs @ takeWhile P ys else takeWhile P xs)"
  by (induction xs) simp_all

lemma takeWhile_all: "list_all P xs \<Longrightarrow> takeWhile P xs = xs"
  by (induction xs) simp_all

lemma trailing_ops_word: "\<not> is_redirect a \<Longrightarrow> trailing_ops (a # args) = trailing_ops args"
  by (simp add: trailing_ops_def takeWhile_snoc takeWhile_all)

lemma trailing_ops_pair:
  "is_redirect a \<Longrightarrow> odd (trailing_ops (a # f # rest)) = odd (trailing_ops rest)"
  by (simp add: trailing_ops_def takeWhile_snoc takeWhile_all)

lemma trailing_ops_single: "trailing_ops [a] = (if is_redirect a then 1 else 0)"
  by (simp add: trailing_ops_def)


lemma rebind_all_Cons: "rebind_all ((a, f) # ts) io = rebind_all ts (rebind a f io)"
  by (simp add: rebind_all_def)

lemma rebind_all_Nil: "rebind_all [] io = io"
  by (simp add: rebind_all_def)

lemma targets_ok_Cons:
  "targets_ok w ((a, f) # ts) \<longleftrightarrow> redirect w f (redirect_mode a) = None \<and> targets_ok w ts"
  by (simp add: targets_ok_def)

lemma targets_ok_Nil: "targets_ok w []"
  by (simp add: targets_ok_def)

text \<open>
  The scan, when every target can be opened: it fails with the missing target when the
  number of operators at the end is odd, and otherwise returns the residual tokens and
  the streams rebound by the pairs.
\<close>

lemma handle_redirection_targets_ok:
  "targets_ok w (targets args) \<Longrightarrow>
   handle_redirection w io args =
     (if odd (trailing_ops args) then Inl Missing_target
      else Inr (residual args, rebind_all (targets args) io))"
proof (induction args arbitrary: io rule: targets.induct)
  case (1 a f rest)
  show ?case
  proof (cases "is_redirect a")
    case True
    with "1.prems" have ok: "redirect w f (redirect_mode a) = None"
      and rest: "targets_ok w (targets rest)"
      by (simp_all add: targets_ok_Cons)
    show ?thesis
      using True ok "1.IH"(1) [OF True rest, of "rebind a f io"]
      by (simp add: handle_redirection_operator trailing_ops_pair rebind_all_Cons)
  next
    case False
    with "1.prems" have rest: "targets_ok w (targets (f # rest))" by simp
    show ?thesis
      using False "1.IH"(2) [OF False rest, of io]
      by (simp add: handle_redirection_word trailing_ops_word)
  qed
next
  case (2 a)
  show ?case
    by (cases "is_redirect a")
      (simp_all add: handle_redirection_operator handle_redirection_word trailing_ops_single
        rebind_all_Nil)
next
  case 3
  show ?case by (simp add: trailing_ops_def rebind_all_Nil)
qed

text \<open>The scan, when a target cannot be opened: it fails with the error of that call.\<close>

lemma handle_redirection_targets_fail:
  "\<not> targets_ok w (targets args) \<Longrightarrow>
   \<exists>e. handle_redirection w io args = Inl e \<and> e \<noteq> Missing_target"
proof (induction args arbitrary: io rule: targets.induct)
  case (1 a f rest)
  show ?case
  proof (cases "is_redirect a")
    case True
    show ?thesis
    proof (cases "redirect w f (redirect_mode a)")
      case None
      with "1.prems" True have "\<not> targets_ok w (targets rest)"
        by (simp add: targets_ok_Cons)
      from "1.IH"(1) [OF True this, of "rebind a f io"] show ?thesis
        using True None by (simp add: handle_redirection_operator)
    next
      case (Some e)
      then show ?thesis
        using True redirect_not_missing [of w f "redirect_mode a"]
        by (auto simp add: handle_redirection_operator)
    qed
  next
    case False
    with "1.prems" have "\<not> targets_ok w (targets (f # rest))" by simp
    from "1.IH"(2) [OF False this, of io] show ?thesis
      using False by (auto simp add: handle_redirection_word)
  qed
next
  case (2 a)
  then show ?case by (simp add: targets_ok_Nil)
next
  case 3
  then show ?case by (simp add: targets_ok_Nil)
qed

lemma handle_redirection_success:
  assumes "handle_redirection w io args = Inr (res, io')"
  shows "targets_ok w (targets args) \<and> even (trailing_ops args) \<and>
     res = residual args \<and> io' = rebind_all (targets args) io"
proof -
  have ok: "targets_ok w (targets args)"
    using handle_redirection_targets_fail [of w args io] assms by auto
  from handle_redirection_targets_ok [OF ok, of io] assms show ?thesis
    using ok by (auto split: if_splits)
qed




lemma residual_subseq: "subseq (residual args) args \<and> list_all (\<lambda>t. \<not> is_redirect t) (residual args)"
  by (induction args rule: residual.induct) (auto intro: list_emb_Cons)

lemma residual_no_operator:
  "list_all (\<lambda>t. \<not> is_redirect t) args \<Longrightarrow> residual args = args \<and> targets args = []"
  by (induction args rule: residual.induct) auto

lemma residual_prefix:
  "list_all (\<lambda>t. \<not> is_redirect t) ws \<Longrightarrow> is_redirect a \<Longrightarrow>
   residual (ws @ a # f # rest) = ws @ residual rest \<and>
   targets (ws @ a # f # rest) = (a, f) # targets rest"
proof (induction ws)
  case Nil
  then show ?case by simp
next
  case (Cons x xs)
  then show ?case by (cases xs) simp_all
qed

text \<open>
  Claim C8. On tokens without \<^verbatim>\<open><\<close>, \<^verbatim>\<open>>\<close> or \<^verbatim>\<open>>>\<close> the scan returns the tokens as they
  are and leaves both streams of the child as they were. In general, whenever the scan
  succeeds, it returns exactly the residual tokens: the tokens it was given, in their
  order, without the operators it met and without the token behind each of them, so
  every other token is kept. They are a subsequence of the given tokens and none is an
  operator. The streams are those rebound by the operators met, a later one overriding
  an earlier one. (The residual of tokens without operators is the tokens; behind a
  prefix without operators, an operator and the token after it are dropped and the scan
  goes on behind them.)
\<close>

theorem handle_redirection_keeps_arguments:
  "(list_all (\<lambda>t. \<not> is_redirect t) args \<longrightarrow> handle_redirection w io args = Inr (args, io)) \<and>
   (handle_redirection w io args = Inr (res, io') \<longrightarrow>
      res = residual args \<and> io' = rebind_all (targets args) io \<and>
      subseq res args \<and> list_all (\<lambda>t. \<not> is_redirect t) res) \<and>
   (list_all (\<lambda>t. \<not> is_redirect t) args \<longrightarrow> residual args = args \<and> targets args = []) \<and>
   (list_all (\<lambda>t. \<not> is_redirect t) ws \<and> is_redirect a \<longrightarrow>
      residual (ws @ a # f # rest) = ws @ residual rest \<and>
      targets (ws @ a # f # rest) = (a, f) # targets rest)"
proof -
  have "handle_redirection w io args = Inr (res, io') \<longrightarrow>
      res = residual args \<and> io' = rebind_all (targets args) io \<and>
      subseq res args \<and> list_all (\<lambda>t. \<not> is_redirect t) res"
    using handle_redirection_success [of w io args res io'] residual_subseq [of args]
    by blast
  then show ?thesis
    using handle_redirection_no_operator [of args w io] residual_no_operator [of args]
      residual_prefix [of ws a f rest]
    by blast
qed

theorem handle_redirection_keeps_arguments_witness:
  "list_all (\<lambda>t. \<not> is_redirect t) [''ls'', ''-l''] \<and>
   handle_redirection example_world \<lparr>io_stdin = Inherited, io_stdout = Inherited\<rparr> [''ls'', ''-l''] =
     Inr ([''ls'', ''-l''], \<lparr>io_stdin = Inherited, io_stdout = Inherited\<rparr>) \<and>
   handle_redirection example_world \<lparr>io_stdin = Inherited, io_stdout = Inherited\<rparr>
     [''echo'', ''>>'', ''log'', ''hello'', ''<'', ''in'', ''>'', ''out''] =
     Inr ([''echo'', ''hello''], \<lparr>io_stdin = File ''in'' Open_rdonly, io_stdout = File ''out'' Open_trunc\<rparr>) \<and>
   residual [''echo'', ''>>'', ''log'', ''hello'', ''<'', ''in'', ''>'', ''out''] = [''echo'', ''hello''] \<and>
   rebind_all (targets [''echo'', ''>>'', ''log'', ''hello'', ''<'', ''in'', ''>'', ''out''])
     \<lparr>io_stdin = Inherited, io_stdout = Inherited\<rparr> =
     \<lparr>io_stdin = File ''in'' Open_rdonly, io_stdout = File ''out'' Open_trunc\<rparr> \<and>
   subseq [''echo'', ''hello''] [''echo'', ''>>'', ''log'', ''hello'', ''<'', ''in'', ''>'', ''out''] \<and>
   is_redirect ''>>'' \<and>
   residual ([''echo''] @ ''>>'' # ''log'' # [''hello'']) = [''echo''] @ residual [''hello'']"
proof -
  let ?io = "\<lparr>io_stdin = Inherited, io_stdout = Inherited\<rparr>"
  let ?args = "[''echo'', ''>>'', ''log'', ''hello'', ''<'', ''in'', ''>'', ''out'']"
  let ?io' = "\<lparr>io_stdin = File ''in'' Open_rdonly, io_stdout = File ''out'' Open_trunc\<rparr>"
  have a: "list_all (\<lambda>t. \<not> is_redirect t) [''ls'', ''-l'']" "list_all (\<lambda>t. \<not> is_redirect t) [''echo'']"
    "is_redirect ''>>''"
    by (simp_all add: is_redirect_def)
  have b: "handle_redirection example_world ?io ?args = Inr ([''echo'', ''hello''], ?io')"
    by code_simp
  show ?thesis
    using handle_redirection_keeps_arguments [of "[''ls'', ''-l'']" example_world ?io]
      handle_redirection_keeps_arguments [of ?args example_world ?io "[''echo'', ''hello'']" ?io'
        "[''echo'']" "''>>''" "''log''" "[''hello'']"]
      a b
    by auto
qed




section \<open>Properties of the executor\<close>

lemma split_pipes_not_Nil: "split_pipes args \<noteq> []"
  by (induction args) (auto split: list.splits)

lemma length_split_pipes: "length (split_pipes args) = num_commands args"
  using split_pipes_not_Nil
  by (induction args) (auto simp add: num_commands_def split: list.splits)

lemma join_split_pipes: "join_pipes (split_pipes args) = args"
proof (induction args)
  case Nil
  then show ?case by simp
next
  case (Cons t ts)
  obtain seg segs where s: "split_pipes ts = seg # segs"
    using split_pipes_not_Nil [of ts] by (cases "split_pipes ts") auto
  show ?case using Cons s by (cases segs) auto
qed

lemma split_pipes_segments: "list_all (\<lambda>seg. ''|'' \<notin> set seg) (split_pipes args)"
  by (induction args) (auto split: list.splits)

lemma make_pipes_ok:
  "(\<And>t. pipe_ok w t) \<Longrightarrow> make_pipes w k s = (True, s\<lparr>syscalls := syscalls s + k\<rparr>)"
  by (induction k arbitrary: s) simp_all

lemma fork_children_ok:
  "(\<And>t. fork_ok w t) \<Longrightarrow>
   fork_children w n i segs s =
     (True, s\<lparr>syscalls := syscalls s + length segs,
              trace := trace s @
                map (\<lambda>(j, seg). Fork (pid_of w (syscalls s + j)) (pipeline_child w n (i + j) seg))
                  (enumerate 0 segs)\<rparr>)"
proof (induction segs arbitrary: i s)
  case Nil
  then show ?case by simp
next
  case (Cons seg segs)
  have "enumerate 0 (seg # segs) = (0, seg) # map (apfst Suc) (enumerate 0 segs)"
    by (simp add: enumerate_Suc_eq)
  then show ?case using Cons
    by (simp add: split_def comp_def)
qed

lemma make_pipes_frame:
  "make_pipes w k s = (b, s') \<Longrightarrow>
   history s' = history s \<and> history_count s' = history_count s \<and> input s' = input s \<and>
   out s' = out s"
  by (induction k arbitrary: s) (auto split: if_splits)

lemma fork_children_frame:
  "fork_children w n i segs s = (b, s') \<Longrightarrow>
   history s' = history s \<and> history_count s' = history_count s \<and> input s' = input s \<and>
   out s' = out s"
  by (induction segs arbitrary: i s) (auto split: if_splits)

lemma sh_execute_simple_frame:
  assumes "sh_execute_simple w args s = (r, s')"
  shows "history s' = history s \<and> history_count s' = history_count s \<and> input s' = input s"
proof (cases "args = []")
  case True
  then show ?thesis using assms by (simp add: sh_execute_simple_def)
next
  case False
  obtain bg args1 where sb: "strip_background args = (bg, args1)"
    by (cases "strip_background args")
  show ?thesis
  proof (cases "num_commands args1 = 1")
    case True
    then show ?thesis using assms False sb
      by (auto simp add: sh_execute_simple_def Let_def split: if_splits)
  next
    case many: False
    obtain b1 s1 where mp: "make_pipes w (num_commands args1 - 1) s = (b1, s1)"
      by (cases "make_pipes w (num_commands args1 - 1) s")
    obtain b2 s2 where fc: "fork_children w (num_commands args1) 0 (split_pipes args1) s1 = (b2, s2)"
      by (cases "fork_children w (num_commands args1) 0 (split_pipes args1) s1")
    from make_pipes_frame [OF mp] fork_children_frame [OF fc]
    show ?thesis using assms False sb many mp fc
      by (auto simp add: sh_execute_simple_def split: if_splits bool.splits)
  qed
qed

lemma sh_execute_simple_status:
  "fst (sh_execute_simple w args s) = Return 0 \<or> fst (sh_execute_simple w args s) = Exit 1"
  by (auto simp add: sh_execute_simple_def Let_def split: prod.splits if_splits bool.splits)

lemma sh_execute_logical_from_frame:
  "sh_execute_logical_from w ret args s = (r, s') \<Longrightarrow>
   history s' = history s \<and> history_count s' = history_count s \<and> input s' = input s"
proof (induction "length args" arbitrary: args ret s rule: less_induct)
  case less
  show ?case
  proof (cases "args = []")
    case True
    then show ?thesis using less.prems by (simp add: sh_execute_logical_from.simps)
  next
    case False
    obtain r1 s1 where ex: "sh_execute_simple w (takeWhile (\<lambda>t. \<not> is_logical t) args) s = (r1, s1)"
      by (cases "sh_execute_simple w (takeWhile (\<lambda>t. \<not> is_logical t) args) s")
    note f1 = sh_execute_simple_frame [OF ex]
    show ?thesis
    proof (cases "dropWhile (\<lambda>t. \<not> is_logical t) args")
      case Nil
      have "sh_execute_logical_from w ret args s =
          (case r1 of Exit c \<Rightarrow> (Exit c, s1) | Return x \<Rightarrow> (Return x, s1))"
        by (subst sh_execute_logical_from.simps, unfold ex Nil) (simp add: False split: outcome.splits)
      then show ?thesis using less.prems f1
        by (auto split: outcome.splits)
    next
      case (Cons op rest)
      have "length (op # rest) \<le> length args"
        using length_dropWhile_le [of "\<lambda>t. \<not> is_logical t" args] Cons by simp
      then have shorter: "length rest < length args" by simp
      have rec: "history s' = history s1 \<and> history_count s' = history_count s1 \<and>
          input s' = input s1"
        if "sh_execute_logical_from w x rest s1 = (r, s')" for x
        using less.hyps [OF shorter that] .
      have "sh_execute_logical_from w ret args s =
          (case r1 of
             Exit c \<Rightarrow> (Exit c, s1)
           | Return x \<Rightarrow>
               if op = ''&&'' then
                 (if x \<noteq> 0 then (Return x, s1) else sh_execute_logical_from w x rest s1)
               else if op = ''||'' then
                 (if x = 0 then (Return x, s1) else sh_execute_logical_from w x rest s1)
               else sh_execute_logical_from w x rest s1)"
        by (subst sh_execute_logical_from.simps, unfold ex Cons) (cases r1; simp add: False)
      then show ?thesis using less.prems f1 rec
        by (auto split: outcome.splits if_splits)
    qed
  qed
qed

lemma sh_execute_logical_from_status:
  "fst (sh_execute_logical_from w ret args s) = Return ret \<or>
   fst (sh_execute_logical_from w ret args s) = Return 0 \<or>
   fst (sh_execute_logical_from w ret args s) = Exit 1"
proof (induction "length args" arbitrary: args ret s rule: less_induct)
  case less
  show ?case
  proof (cases "args = []")
    case True
    then show ?thesis by (simp add: sh_execute_logical_from.simps)
  next
    case False
    obtain r1 s1 where ex: "sh_execute_simple w (takeWhile (\<lambda>t. \<not> is_logical t) args) s = (r1, s1)"
      by (cases "sh_execute_simple w (takeWhile (\<lambda>t. \<not> is_logical t) args) s")
    have r1: "r1 = Return 0 \<or> r1 = Exit 1"
      using sh_execute_simple_status [of w "takeWhile (\<lambda>t. \<not> is_logical t) args" s] ex by simp
    show ?thesis
    proof (cases "dropWhile (\<lambda>t. \<not> is_logical t) args")
      case Nil
      have "sh_execute_logical_from w ret args s =
          (case r1 of Exit c \<Rightarrow> (Exit c, s1) | Return x \<Rightarrow> (Return x, s1))"
        by (subst sh_execute_logical_from.simps, unfold ex Nil) (simp add: False split: outcome.splits)
      then show ?thesis using r1 by auto
    next
      case (Cons op rest)
      have "length (op # rest) \<le> length args"
        using length_dropWhile_le [of "\<lambda>t. \<not> is_logical t" args] Cons by simp
      then have shorter: "length rest < length args" by simp
      have rec: "fst (sh_execute_logical_from w 0 rest s1) = Return 0 \<or>
          fst (sh_execute_logical_from w 0 rest s1) = Exit 1"
        using less.hyps [OF shorter, of 0 s1] by auto
      have eq: "sh_execute_logical_from w ret args s =
          (case r1 of
             Exit c \<Rightarrow> (Exit c, s1)
           | Return x \<Rightarrow>
               if op = ''&&'' then
                 (if x \<noteq> 0 then (Return x, s1) else sh_execute_logical_from w x rest s1)
               else if op = ''||'' then
                 (if x = 0 then (Return x, s1) else sh_execute_logical_from w x rest s1)
               else sh_execute_logical_from w x rest s1)"
        by (subst sh_execute_logical_from.simps, unfold ex Cons) (cases r1; simp add: False)
      from r1 show ?thesis
      proof
        assume "r1 = Exit 1"
        then show ?thesis using eq by simp
      next
        assume "r1 = Return 0"
        then have "sh_execute_logical_from w ret args s =
            (if op = ''||'' then (Return 0, s1) else sh_execute_logical_from w 0 rest s1)"
          using eq by simp
        then show ?thesis using rec by (cases "op = ''||''") simp_all
      qed
    qed
  qed
qed

text \<open>
  Claim C1 fails on the code, which is at fault: \<^verbatim>\<open>sh_execute_simple\<close> waits with
  \<^verbatim>\<open>waitpid(pid, NULL, 0)\<close> and \<^verbatim>\<open>wait(NULL)\<close> and returns 0, whatever its children return
  (\<open>sh_execute_simple_status\<close> above: 0, or the shell has exited). \<^verbatim>\<open>false\<close> ends with
  status 1 and the executor returns 0, alone and as the last command of a pipeline.
\<close>

theorem sh_execute_simple_discards_status:
  "fst (sh_execute_simple example_world [''false''] (init_shell [])) = Return 0 \<and>
   trace (snd (sh_execute_simple example_world [''false''] (init_shell []))) =
     [Fork 100 (Ran [''false''] \<lparr>io_stdin = Inherited, io_stdout = Inherited\<rparr> 1), Waitpid 100] \<and>
   exit_status (Ran [''false''] \<lparr>io_stdin = Inherited, io_stdout = Inherited\<rparr> 1) = Some 1 \<and>
   fst (sh_execute_simple example_world [''ls'', ''|'', ''false''] (init_shell [])) = Return 0 \<and>
   trace (snd (sh_execute_simple example_world [''ls'', ''|'', ''false''] (init_shell []))) =
     [Fork 101 (Ran [''ls''] \<lparr>io_stdin = Inherited, io_stdout = Pipe_write 0\<rparr> 0),
      Fork 102 (Ran [''false''] \<lparr>io_stdin = Pipe_read 0, io_stdout = Inherited\<rparr> 1), Wait, Wait]"
  by code_simp

text \<open>
  Claim C2 fails on the code, by the same defect: \<^verbatim>\<open>sh_execute_logical\<close> tests the value
  \<^verbatim>\<open>sh_execute_simple\<close> returns, which is always 0. After \<^verbatim>\<open>false &&\<close> the next command
  runs, and the chain returns 0; after \<^verbatim>\<open>false ||\<close> the next command does not run.
\<close>

theorem sh_execute_logical_ignores_failure:
  "fst (sh_execute_logical example_world [''false'', ''&&'', ''echo'', ''X''] (init_shell [])) = Return 0 \<and>
   trace (snd (sh_execute_logical example_world [''false'', ''&&'', ''echo'', ''X''] (init_shell []))) =
     [Fork 100 (Ran [''false''] \<lparr>io_stdin = Inherited, io_stdout = Inherited\<rparr> 1), Waitpid 100,
      Fork 101 (Ran [''echo'', ''X''] \<lparr>io_stdin = Inherited, io_stdout = Inherited\<rparr> 0), Waitpid 101] \<and>
   fst (sh_execute_logical example_world [''false'', ''||'', ''echo'', ''X''] (init_shell [])) = Return 0 \<and>
   trace (snd (sh_execute_logical example_world [''false'', ''||'', ''echo'', ''X''] (init_shell []))) =
     [Fork 100 (Ran [''false''] \<lparr>io_stdin = Inherited, io_stdout = Inherited\<rparr> 1), Waitpid 100]"
  by code_simp

text \<open>
  Claim C6 fails: \<^verbatim>\<open>sh_execute_simple\<close> checks no segment. With a leading pipe, a
  trailing pipe or two pipes in a row it reports nothing, forks a child for every
  segment, the empty one included, and returns 0; the other commands run.
\<close>

theorem pipeline_parse_error_counterexample:
  "fst (sh_execute_simple example_world [''|'', ''ls''] (init_shell [])) = Return 0 \<and>
   trace (snd (sh_execute_simple example_world [''|'', ''ls''] (init_shell []))) =
     [Fork 101 Exec_null,
      Fork 102 (Ran [''ls''] \<lparr>io_stdin = Pipe_read 0, io_stdout = Inherited\<rparr> 0), Wait, Wait] \<and>
   err (snd (sh_execute_simple example_world [''|'', ''ls''] (init_shell []))) = [] \<and>
   trace (snd (sh_execute_simple example_world [''ls'', ''|''] (init_shell []))) =
     [Fork 101 (Ran [''ls''] \<lparr>io_stdin = Inherited, io_stdout = Pipe_write 0\<rparr> 0),
      Fork 102 Exec_null, Wait, Wait] \<and>
   trace (snd (sh_execute_simple example_world [''ls'', ''|'', ''|'', ''sort''] (init_shell []))) =
     [Fork 102 (Ran [''ls''] \<lparr>io_stdin = Inherited, io_stdout = Pipe_write 0\<rparr> 0),
      Fork 103 Exec_null,
      Fork 104 (Ran [''sort''] \<lparr>io_stdin = Pipe_read 1, io_stdout = Inherited\<rparr> 0), Wait, Wait, Wait]"
  by code_simp

text \<open>
  Claim C6 as amended. When \<^verbatim>\<open>fork\<close> and \<^verbatim>\<open>pipe\<close> succeed, no token list with at least
  one \<^verbatim>\<open>|\<close> (after a trailing \<^verbatim>\<open>&\<close> is removed) is rejected: nothing is reported, one
  child is forked for each of the segments between the pipes, in order, empty segments
  included, and the executor returns 0. The segments are the tokens between the pipes
  (joined by \<^verbatim>\<open>|\<close> they give the tokens back). Every child whose \<^verbatim>\<open>dup2\<close> calls onto the
  pipes succeed and whose segment leaves tokens after its redirections are resolved
  executes them, whatever the other segments are: with its streams on the pipes and the
  files of its redirections, it starts the program if \<^verbatim>\<open>execvp\<close> finds it. (What the
  child of a segment without tokens does is left open.)
\<close>

theorem pipeline_forks_every_segment:
  assumes "\<forall>t. fork_ok w t" and "\<forall>t. pipe_ok w t"
    and "args0 \<noteq> []" and "strip_background args0 = (bg, args)" and "1 < num_commands args"
  shows "sh_execute_simple w args0 s =
      (Return 0,
       s\<lparr>syscalls := syscalls s + (num_commands args - 1) + num_commands args,
         trace := trace s @
           map (\<lambda>(j, seg). Fork (pid_of w (syscalls s + (num_commands args - 1) + j))
                  (pipeline_child w (num_commands args) j seg))
             (enumerate 0 (split_pipes args)) @
           (if bg then [] else replicate (num_commands args) Wait),
         out := out s @ (if bg then ''[Background pipeline started]'' @ [NL] else [])\<rparr>) \<and>
     err (snd (sh_execute_simple w args0 s)) = err s \<and>
     length (split_pipes args) = num_commands args \<and>
     join_pipes (split_pipes args) = args \<and>
     list_all (\<lambda>seg. ''|'' \<notin> set seg) (split_pipes args) \<and>
     (j < num_commands args \<and>
      (j \<noteq> 0 \<longrightarrow> dup2_ok w (Pipe_read (j - 1))) \<and>
      (j \<noteq> num_commands args - 1 \<longrightarrow> dup2_ok w (Pipe_write j)) \<and>
      handle_redirection w (pipe_io (num_commands args) j) (split_pipes args ! j) = Inr (argv, io') \<and>
      argv \<noteq> [] \<longrightarrow>
      trace (snd (sh_execute_simple w args0 s)) ! (length (trace s) + j) =
        Fork (pid_of w (syscalls s + (num_commands args - 1) + j))
          (case program w argv io' of
             None \<Rightarrow> Exec_failed argv
           | Some st \<Rightarrow> Ran argv io' st))"
proof -
  let ?n = "num_commands args"
  let ?f = "\<lambda>(j, seg). Fork (pid_of w (syscalls s + (?n - 1) + j)) (pipeline_child w ?n j seg)"
  have mp: "make_pipes w (?n - 1) s = (True, s\<lparr>syscalls := syscalls s + (?n - 1)\<rparr>)"
    using assms(2) by (simp add: make_pipes_ok)
  have fc: "fork_children w ?n 0 (split_pipes args) (s\<lparr>syscalls := syscalls s + (?n - 1)\<rparr>) =
      (True, s\<lparr>syscalls := syscalls s + (?n - 1) + ?n,
               trace := trace s @ map ?f (enumerate 0 (split_pipes args))\<rparr>)"
    using assms(1) by (simp add: fork_children_ok length_split_pipes)
  have run: "sh_execute_simple w args0 s =
      (Return 0,
       s\<lparr>syscalls := syscalls s + (?n - 1) + ?n,
         trace := trace s @ map ?f (enumerate 0 (split_pipes args)) @
           (if bg then [] else replicate ?n Wait),
         out := out s @ (if bg then ''[Background pipeline started]'' @ [NL] else [])\<rparr>)"
    using assms(3,4,5) mp fc by (simp add: sh_execute_simple_def)
  have quiet: "err (snd (sh_execute_simple w args0 s)) = err s"
    unfolding run by simp
  have child: "trace (snd (sh_execute_simple w args0 s)) ! (length (trace s) + j) =
        Fork (pid_of w (syscalls s + (?n - 1) + j))
          (case program w argv io' of None \<Rightarrow> Exec_failed argv | Some st \<Rightarrow> Ran argv io' st)"
    if j: "j < ?n"
      and r: "j \<noteq> 0 \<longrightarrow> dup2_ok w (Pipe_read (j - 1))"
      and wr: "j \<noteq> ?n - 1 \<longrightarrow> dup2_ok w (Pipe_write j)"
      and h: "handle_redirection w (pipe_io ?n j) (split_pipes args ! j) = Inr (argv, io')"
      and ne: "argv \<noteq> []"
  proof -
    have len: "j < length (split_pipes args)"
      using j by (simp add: length_split_pipes)
    have "trace (snd (sh_execute_simple w args0 s)) ! (length (trace s) + j) =
        (map ?f (enumerate 0 (split_pipes args)) @ (if bg then [] else replicate ?n Wait)) ! j"
      unfolding run by (simp add: nth_append)
    also have "\<dots> = ?f (j, split_pipes args ! j)"
      using len by (simp add: nth_append nth_enumerate_eq)
    finally have t: "trace (snd (sh_execute_simple w args0 s)) ! (length (trace s) + j) =
        Fork (pid_of w (syscalls s + (?n - 1) + j)) (pipeline_child w ?n j (split_pipes args ! j))"
      by simp
    have "pipeline_child w ?n j (split_pipes args ! j) =
        (case program w argv io' of None \<Rightarrow> Exec_failed argv | Some st \<Rightarrow> Ran argv io' st)"
      using r wr h ne by (auto simp add: pipeline_child_def child_exec_def)
    with t show ?thesis by simp
  qed
  show ?thesis
    using run quiet child length_split_pipes [of args] join_split_pipes [of args]
      split_pipes_segments [of args]
    by blast
qed

theorem pipeline_forks_every_segment_witness:
  "(\<forall>t. fork_ok example_world t) \<and> (\<forall>t. pipe_ok example_world t) \<and>
   strip_background [''|'', ''ls'', ''&''] = (True, [''|'', ''ls'']) \<and>
   1 < num_commands [''|'', ''ls''] \<and>
   fst (sh_execute_simple example_world [''|'', ''ls'', ''&''] (init_shell [])) = Return 0 \<and>
   err (snd (sh_execute_simple example_world [''|'', ''ls'', ''&''] (init_shell []))) = [] \<and>
   split_pipes [''|'', ''ls''] = [[], [''ls'']] \<and>
   dup2_ok example_world (Pipe_read 0) \<and>
   handle_redirection example_world (pipe_io 2 1) [''ls''] = Inr ([''ls''], pipe_io 2 1) \<and>
   trace (snd (sh_execute_simple example_world [''|'', ''ls'', ''&''] (init_shell []))) ! 1 =
     Fork 102 (Ran [''ls''] \<lparr>io_stdin = Pipe_read 0, io_stdout = Inherited\<rparr> 0)"
proof -
  have a: "(\<forall>t. fork_ok example_world t) \<and> (\<forall>t. pipe_ok example_world t)"
    by (simp add: example_world_def)
  have b: "strip_background [''|'', ''ls'', ''&''] = (True, [''|'', ''ls''])"
    by (simp add: strip_background_def)
  have c: "1 < num_commands [''|'', ''ls'']" "num_commands [''|'', ''ls''] = 2"
    by (simp_all add: num_commands_def)
  have d: "split_pipes [''|'', ''ls''] = [[], [''ls'']]"
    by simp
  have e: "dup2_ok example_world (Pipe_read 0)"
    by (simp add: example_world_def)
  have h: "handle_redirection example_world (pipe_io 2 1) [''ls''] = Inr ([''ls''], pipe_io 2 1)"
    by (simp add: handle_redirection_no_operator is_redirect_def)
  have p: "program example_world [''ls''] io = Some 0"
    "pipe_io 2 1 = \<lparr>io_stdin = Pipe_read 0, io_stdout = Inherited\<rparr>"
    "pipe_io 2 (Suc 0) = \<lparr>io_stdin = Pipe_read 0, io_stdout = Inherited\<rparr>" for io
    by (simp_all add: example_world_def pipe_io_def)
  have q: "pipeline_child example_world 2 (Suc 0) [''ls''] =
      Ran [''ls''] \<lparr>io_stdin = Pipe_read 0, io_stdout = Inherited\<rparr> 0"
    by code_simp
  have g: "pid_of example_world n = 100 + n" "syscalls (init_shell []) = 0"
    "trace (init_shell []) = []" "err (init_shell []) = []" for n
    by (simp_all add: example_world_def init_shell_def)
  show ?thesis
    using pipeline_forks_every_segment [where w = example_world
        and ?args0.0 = "[''|'', ''ls'', ''&'']" and bg = True and args = "[''|'', ''ls'']"
        and j = 1 and argv = "[''ls'']" and io' = "pipe_io 2 1" and s = "init_shell []"]
      a b c(1) e h
    by (simp add: c(2) d g p q)
qed

section \<open>Properties of the main loop\<close>

lemma fresh_Cons: "0 < n \<Longrightarrow> fresh w off n = uninit w off # fresh w (Suc off) (n - 1)"
  by (simp add: fresh_def upt_conv_Cons)

lemma BUFFER_SIZE_pos: "0 < BUFFER_SIZE"
  by (simp add: BUFFER_SIZE_def)

lemma cstr_fresh_zero: "uninit w 0 = NUL \<Longrightarrow> cstr (fresh w 0 BUFFER_SIZE) = []"
  by (subst fresh_Cons [OF BUFFER_SIZE_pos]) (simp add: cstr_def)

lemma sh_read_line_eof:
  "input s = [] \<Longrightarrow> uninit w 0 = NUL \<Longrightarrow> sh_read_line w s = ([], s)"
  by (simp add: sh_read_line_def cstr_fresh_zero)

lemma sh_read_line_empty_line:
  "input s = [NL] \<Longrightarrow> fst (sh_read_line w s) = []"
  by (subst sh_read_line_def, subst fresh_Cons [OF BUFFER_SIZE_pos]) (simp add: cstr_def)

lemma sh_execute_logical_Nil: "sh_execute_logical w [] s = (Return 0, s)"
  by (simp add: sh_execute_logical_def sh_execute_logical_from.simps)

lemma sh_loop_body_empty: "sh_loop_body w [] s = (Some (Return 0), s)"
  by (simp add: sh_loop_body_def recall_requested_def add_to_history_def chomp_def
      sh_split_line_def sh_execute_logical_Nil)

lemma sh_loop_eof:
  "uninit w 0 = NUL \<Longrightarrow> input s = [] \<Longrightarrow> sh_loop fuel w status s = None"
  by (induction fuel arbitrary: status s) (simp_all add: sh_read_line_eof sh_loop_body_empty)

lemma sh_execute_logical_entries:
  "entries (snd (sh_execute_logical w args s)) = entries s"
proof -
  obtain r s' where e: "sh_execute_logical_from w 0 args s = (r, s')"
    by (cases "sh_execute_logical_from w 0 args s")
  from sh_execute_logical_from_frame [OF e] show ?thesis
    by (simp add: sh_execute_logical_def e entries_def)
qed

lemma recall_requested_history: "\<not> recall_requested ''history''"
  by (simp add: recall_requested_def)

lemma sh_loop_body_literal:
  "\<not> recall_requested line \<Longrightarrow>
   sh_loop_body w line s =
     (case sh_execute_logical w (sh_split_line (chomp line)) (add_to_history MAX_HISTORY line s) of
        (r, s') \<Rightarrow> (Some r, s'))"
  by (simp add: sh_loop_body_def)

lemma sh_loop_body_literal_entries:
  "\<not> recall_requested line \<Longrightarrow>
   entries (snd (sh_loop_body w line s)) = entries (add_to_history MAX_HISTORY line s)"
proof -
  assume lit: "\<not> recall_requested line"
  obtain r s' where e: "sh_execute_logical w (sh_split_line (chomp line))
      (add_to_history MAX_HISTORY line s) = (r, s')"
    by (cases "sh_execute_logical w (sh_split_line (chomp line)) (add_to_history MAX_HISTORY line s)")
  have "entries s' = entries (add_to_history MAX_HISTORY line s)"
    using sh_execute_logical_entries [of w "sh_split_line (chomp line)"
        "add_to_history MAX_HISTORY line s"] e by simp
  then show ?thesis
    by (simp add: sh_loop_body_literal [OF lit] e)
qed

lemma chomp_trim_command: "chomp (trim_command c) = trim_command c"
proof (cases "trim_command c = []")
  case True
  then show ?thesis by (simp add: chomp_def)
next
  case False
  let ?P = "\<lambda>c. c = CHR '' '' \<or> c = TAB \<or> c = NL"
  let ?xs = "rev (dropWhile (\<lambda>c. c = CHR '' '' \<or> c = TAB) c)"
  have ne: "dropWhile ?P ?xs \<noteq> []"
    using False by (simp add: trim_command_def)
  then have "\<not> ?P (hd (dropWhile ?P ?xs))"
    by (rule hd_dropWhile)
  moreover have "last (trim_command c) = hd (dropWhile ?P ?xs)"
    using ne by (simp add: trim_command_def last_rev)
  ultimately show ?thesis by (simp add: chomp_def)
qed

lemma main_command_keeps_out:
  "''history'' \<notin> set (sh_history t) \<Longrightarrow> ''history'' \<notin> set (sh_history (main_command c t))"
  by (simp add: main_command_def Let_def print_history_def add_history_def chomp_trim_command)

lemma foldl_main_command_keeps_out:
  "''history'' \<notin> set (sh_history t) \<Longrightarrow>
   ''history'' \<notin> set (sh_history (foldl (\<lambda>s c. main_command c s) t cs))"
  by (induction cs arbitrary: t) (simp_all add: main_command_keeps_out)

lemma digits_value_mono: "0 \<le> acc \<Longrightarrow> acc \<le> digits_value acc ds"
proof (induction ds arbitrary: acc)
  case Nil
  then show ?case by simp
next
  case (Cons c cs)
  have "(0::int) \<le> of_char c - 48 \<or> \<not> isdigit c"
    by (auto simp add: isdigit_def)
  then show ?case using Cons.prems Cons.IH [of "acc * 10 + (of_char c - 48)"]
    by auto
qed

lemma digits_value_run:
  "list_all isdigit ds \<Longrightarrow> rest = [] \<or> \<not> isdigit (hd rest) \<Longrightarrow>
   digits_value acc (ds @ rest) = digits_value acc ds"
proof (induction ds arbitrary: acc)
  case Nil
  then show ?case by (cases rest) auto
next
  case (Cons c cs)
  then show ?case by simp
qed

lemma isdigit_not_space: "isdigit c \<Longrightarrow> \<not> isspace c \<and> c \<noteq> CHR ''-'' \<and> c \<noteq> CHR ''+''"
  by (auto simp add: isdigit_def isspace_def)

lemma to_int_id: "0 \<le> x \<Longrightarrow> x \<le> INT_MAX \<Longrightarrow> to_int x = x"
  by (simp add: to_int_def INT_MAX_def)

lemma atoi_digit_run:
  assumes "ds \<noteq> []" and "list_all isdigit ds" and "rest = [] \<or> \<not> isdigit (hd rest)"
    and "digits_value 0 ds \<le> INT_MAX"
  shows "atoi (ds @ rest) = digits_value 0 ds"
proof -
  from assms(1) obtain c cs where ds: "ds = c # cs" by (cases ds) auto
  with assms(2) have c: "isdigit c" by simp
  have v: "digits_value 0 (ds @ rest) = digits_value 0 ds"
    using assms(2,3) by (rule digits_value_run)
  have nn: "0 \<le> digits_value 0 ds"
    using digits_value_mono [of 0 ds] by simp
  have "strtol (ds @ rest) = min (digits_value 0 (ds @ rest)) LONG_MAX"
    using isdigit_not_space [OF c] by (simp add: strtol_def ds)
  also have "\<dots> = digits_value 0 ds"
    using assms(4) by (simp add: v LONG_MAX_def INT_MAX_def)
  finally show ?thesis
    using nn assms(4) by (simp add: atoi_def to_int_id)
qed

lemma recall_requested_iff:
  "recall_requested line \<longleftrightarrow> (\<exists>c rest. line = CHR ''!'' # c # rest \<and> isdigit c)"
  by (auto simp add: recall_requested_def split: list.splits)

lemma sh_loop_body_recall:
  "recall_requested line \<Longrightarrow>
   sh_loop_body w line s =
     (case get_history_command (atoi (tl line)) s of
        None \<Rightarrow> (None, s\<lparr>err := err s @ ''No such command in history.'' @ [NL]\<rparr>)
      | Some h \<Rightarrow>
          (case sh_execute_logical w (sh_split_line (chomp h))
                  (add_to_history MAX_HISTORY h (s\<lparr>out := out s @ h @ [NL]\<rparr>)) of
             (r, s') \<Rightarrow> (Some r, s')))"
  by (simp add: sh_loop_body_def split: option.splits)

lemma sh_execute_simple_returns:
  assumes "\<And>t. fork_ok w t" and "\<And>t. pipe_ok w t"
  shows "fst (sh_execute_simple w args s) = Return 0"
proof (cases "args = []")
  case True
  then show ?thesis by (simp add: sh_execute_simple_def)
next
  case False
  obtain bg args1 where sb: "strip_background args = (bg, args1)"
    by (cases "strip_background args")
  show ?thesis
    using False sb assms
    by (simp add: sh_execute_simple_def Let_def make_pipes_ok fork_children_ok)
qed

lemma sh_execute_logical_from_returns:
  assumes "\<And>t. fork_ok w t" and "\<And>t. pipe_ok w t"
  shows "fst (sh_execute_logical_from w ret args s) = Return ret \<or>
     fst (sh_execute_logical_from w ret args s) = Return 0"
proof (induction "length args" arbitrary: args ret s rule: less_induct)
  case less
  show ?case
  proof (cases "args = []")
    case True
    then show ?thesis by (simp add: sh_execute_logical_from.simps)
  next
    case False
    obtain r1 s1 where ex: "sh_execute_simple w (takeWhile (\<lambda>t. \<not> is_logical t) args) s = (r1, s1)"
      by (cases "sh_execute_simple w (takeWhile (\<lambda>t. \<not> is_logical t) args) s")
    have r1: "r1 = Return 0"
      using sh_execute_simple_returns [OF assms, of "takeWhile (\<lambda>t. \<not> is_logical t) args" s] ex
      by simp
    show ?thesis
    proof (cases "dropWhile (\<lambda>t. \<not> is_logical t) args")
      case Nil
      have "sh_execute_logical_from w ret args s = (Return 0, s1)"
        by (subst sh_execute_logical_from.simps, unfold ex Nil) (simp add: False r1)
      then show ?thesis by simp
    next
      case (Cons op rest)
      have "length (op # rest) \<le> length args"
        using length_dropWhile_le [of "\<lambda>t. \<not> is_logical t" args] Cons by simp
      then have shorter: "length rest < length args" by simp
      have rec: "fst (sh_execute_logical_from w 0 rest s1) = Return 0"
        using less.hyps [OF shorter, of 0 s1] by auto
      have "sh_execute_logical_from w ret args s =
          (if op = ''||'' then (Return 0, s1) else sh_execute_logical_from w 0 rest s1)"
        by (subst sh_execute_logical_from.simps, unfold ex Cons) (simp add: False r1)
      then show ?thesis using rec by (cases "op = ''||''") simp_all
    qed
  qed
qed

lemma add_to_history_input: "input (add_to_history cap line s) = input s"
  by (simp add: add_to_history_def Let_def)

lemma sh_loop_body_at_eof:
  assumes "\<And>t. fork_ok w t" and "\<And>t. pipe_ok w t" and "input s = []"
  shows "input (snd (sh_loop_body w line s)) = [] \<and>
     (fst (sh_loop_body w line s) = None \<or> fst (sh_loop_body w line s) = Some (Return 0))"
proof -
  have run: "input s' = input s0 \<and> r = Return 0"
    if "sh_execute_logical w args s0 = (r, s')" for args s0 r s'
  proof -
    from that have e: "sh_execute_logical_from w 0 args s0 = (r, s')"
      by (simp add: sh_execute_logical_def)
    from sh_execute_logical_from_frame [OF e]
      sh_execute_logical_from_returns [OF assms(1,2), of 0 args s0] e
    show ?thesis by simp
  qed
  show ?thesis
  proof (cases "recall_requested line")
    case False
    obtain r s' where e: "sh_execute_logical w (sh_split_line (chomp line))
        (add_to_history MAX_HISTORY line s) = (r, s')"
      by (cases "sh_execute_logical w (sh_split_line (chomp line)) (add_to_history MAX_HISTORY line s)")
    from run [OF e] show ?thesis
      using assms(3) by (simp add: sh_loop_body_literal [OF False] e add_to_history_input)
  next
    case True
    show ?thesis
    proof (cases "get_history_command (atoi (tl line)) s")
      case None
      then show ?thesis using assms(3) by (simp add: sh_loop_body_recall [OF True])
    next
      case (Some h)
      obtain r s' where e: "sh_execute_logical w (sh_split_line (chomp h))
          (add_to_history MAX_HISTORY h (s\<lparr>out := out s @ h @ [NL]\<rparr>)) = (r, s')"
        by (cases "sh_execute_logical w (sh_split_line (chomp h))
          (add_to_history MAX_HISTORY h (s\<lparr>out := out s @ h @ [NL]\<rparr>))")
      from run [OF e] show ?thesis
        using assms(3) by (simp add: sh_loop_body_recall [OF True] Some e add_to_history_input)
    qed
  qed
qed

lemma sh_read_line_at_eof:
  "input s = [] \<Longrightarrow> snd (sh_read_line w s) = s"
  by (simp add: sh_read_line_def)

lemma sh_loop_eof_any_buffer:
  assumes "\<And>t. fork_ok w t" and "\<And>t. pipe_ok w t"
  shows "input s = [] \<Longrightarrow> 0 \<le> status \<Longrightarrow> sh_loop fuel w status s = None"
proof (induction fuel arbitrary: status s)
  case 0
  then show ?case by simp
next
  case (Suc fuel)
  let ?s0 = "s\<lparr>out := out s @ ''utsh$ ''\<rparr>"
  obtain line s1 where rl: "sh_read_line w ?s0 = (line, s1)"
    by (cases "sh_read_line w ?s0")
  have s1: "input s1 = []"
    using sh_read_line_at_eof [of ?s0 w] rl Suc.prems(1) by simp
  obtain r s2 where b: "sh_loop_body w line s1 = (r, s2)"
    by (cases "sh_loop_body w line s1")
  from sh_loop_body_at_eof [OF assms s1, of line] b
  have s2: "input s2 = []" and r: "r = None \<or> r = Some (Return 0)"
    by simp_all
  from r show ?case
  proof
    assume "r = None"
    then show ?thesis using rl b Suc.IH [OF s2 Suc.prems(2)] Suc.prems(2) by simp
  next
    assume "r = Some (Return 0)"
    then show ?thesis using rl b Suc.IH [OF s2, of 0] by simp
  qed
qed

text \<open>
  The shape \<open>history_inv\<close> of the history holds when the shell starts
  (\<open>init_shell_inv\<close>) and every pass of the loop keeps it.
\<close>

lemma sh_execute_logical_inv:
  "history_inv cap s \<Longrightarrow> history_inv cap (snd (sh_execute_logical w args s))"
proof -
  assume inv: "history_inv cap s"
  obtain r s' where e: "sh_execute_logical_from w 0 args s = (r, s')"
    by (cases "sh_execute_logical_from w 0 args s")
  from sh_execute_logical_from_frame [OF e] inv show ?thesis
    by (simp add: sh_execute_logical_def e history_inv_def)
qed

lemma sh_loop_body_inv:
  assumes "history_inv MAX_HISTORY s"
  shows "history_inv MAX_HISTORY (snd (sh_loop_body w line s))"
proof -
  have out: "history_inv MAX_HISTORY (s\<lparr>out := x\<rparr>)" and err: "history_inv MAX_HISTORY (s\<lparr>err := x\<rparr>)" for x
    using assms by (simp_all add: history_inv_def)
  show ?thesis
  proof (cases "recall_requested line")
    case False
    show ?thesis
      using sh_execute_logical_inv [OF add_to_history_inv [OF assms, of line],
          of w "sh_split_line (chomp line)"]
      by (auto simp add: sh_loop_body_literal [OF False] split: prod.splits)
  next
    case True
    show ?thesis
    proof (cases "get_history_command (atoi (tl line)) s")
      case None
      then show ?thesis using err by (simp add: sh_loop_body_recall [OF True])
    next
      case (Some h)
      show ?thesis
        using sh_execute_logical_inv [OF add_to_history_inv [OF out, of h],
            of w "sh_split_line (chomp h)" "out s @ h @ [NL]"]
        by (auto simp add: sh_loop_body_recall [OF True] Some split: prod.splits)
    qed
  qed
qed

text \<open>
  Claim C5 fails on the code, which is at fault: at the end of the input
  \<^verbatim>\<open>sh_read_line\<close> leaves its loop and returns the buffer, as it does for a line. With
  fresh memory zero the caller reads the empty line, the same as after a bare newline;
  \<^verbatim>\<open>sh_loop\<close> runs it, \<^verbatim>\<open>status\<close> is 0, and the loop reads again. The shell never exits:
  for every bound on the number of passes it is still in the loop. (Whatever the buffer
  holds, the loop goes on once \<^verbatim>\<open>status\<close> is not negative, as long as \<^verbatim>\<open>fork\<close> and
  \<^verbatim>\<open>pipe\<close> succeed: \<open>sh_loop_eof_any_buffer\<close> above.)
\<close>

theorem eof_does_not_end_the_session:
  assumes "uninit w 0 = NUL"
  shows "sh_read_line w (init_shell []) = ([], init_shell []) \<and>
     fst (sh_read_line w (init_shell [NL])) = [] \<and>
     sh_loop fuel w status (init_shell []) = None \<and>
     main fuel w [] = None"
proof -
  have i: "input (init_shell stdin) = stdin" for stdin
    by (simp add: init_shell_def)
  show ?thesis
    using assms sh_loop_eof [of w "init_shell []"]
    by (simp add: sh_read_line_eof sh_read_line_empty_line i main_def)
qed

theorem eof_does_not_end_the_session_witness:
  "uninit example_world 0 = NUL \<and>
   sh_read_line example_world (init_shell []) = ([], init_shell []) \<and>
   main 3 example_world [] = None"
  using eof_does_not_end_the_session [of example_world 3 0]
  by (simp add: example_world_def)

text \<open>
  Claim C9 fails for \<^verbatim>\<open>sh_loop\<close>: sh1.c has no built-in \<^verbatim>\<open>history\<close>, the line is
  recorded like any other and then run as a program.
\<close>

theorem history_line_recorded_counterexample:
  "entries (init_shell []) = [] \<and>
   entries (snd (sh_loop_body example_world ''history'' (init_shell []))) = [''history''] \<and>
   trace (snd (sh_loop_body example_world ''history'' (init_shell []))) =
     [Fork 100 (Exec_failed [''history'']), Waitpid 100]"
  by code_simp

text \<open>
  Claim C9 as amended. In \<^verbatim>\<open>sh_loop\<close> the line \<^verbatim>\<open>history\<close> is recorded as every line that
  is not empty: it becomes the newest entry. In the simple variant a command that is
  \<^verbatim>\<open>history\<close> once the blanks around it are removed leaves the history as it is, and
  no line puts an entry \<^verbatim>\<open>history\<close> into the history.
\<close>

theorem history_command_recording:
  "entries (snd (sh_loop_body w ''history'' s)) =
     entries (add_to_history MAX_HISTORY ''history'' s) \<and>
   (history_inv MAX_HISTORY s \<longrightarrow>
      entries (snd (sh_loop_body w ''history'' s)) =
        (if length (entries s) < 50 then entries s @ [''history'']
         else tl (entries s) @ [''history''])) \<and>
   (trim_command c = ''history'' \<longrightarrow> sh_history (main_command c t) = sh_history t) \<and>
   (''history'' \<notin> set (sh_history t) \<longrightarrow> ''history'' \<notin> set (sh_history (main_line line t)))"
proof -
  have a: "entries (snd (sh_loop_body w ''history'' s)) =
      entries (add_to_history MAX_HISTORY ''history'' s)"
    using recall_requested_history by (rule sh_loop_body_literal_entries)
  have b: "entries (add_to_history MAX_HISTORY ''history'' s) =
      (if length (entries s) < 50 then entries s @ [''history'']
       else tl (entries s) @ [''history''])" if "history_inv MAX_HISTORY s"
    using add_to_history_entries [OF that, of "''history''"]
    by (simp add: chomp_def MAX_HISTORY_def)
  have c: "trim_command c = ''history'' \<longrightarrow> sh_history (main_command c t) = sh_history t"
    by (simp add: main_command_def print_history_def)
  have d: "''history'' \<notin> set (sh_history t) \<longrightarrow> ''history'' \<notin> set (sh_history (main_line line t))"
    by (simp add: main_line_def foldl_main_command_keeps_out)
  show ?thesis using a b c d by simp
qed

theorem history_command_recording_witness:
  "history_inv MAX_HISTORY (init_shell []) \<and>
   entries (snd (sh_loop_body example_world ''history'' (init_shell []))) = [''history''] \<and>
   trim_command ('' history '' @ [NL]) = ''history'' \<and>
   sh_history (main_command ('' history '' @ [NL]) \<lparr>sh_history = [''ls''], sh_out = []\<rparr>) = [''ls''] \<and>
   ''history'' \<notin> set (sh_history \<lparr>sh_history = [''ls''], sh_out = []\<rparr>) \<and>
   sh_history (main_line (''pwd; history'' @ [NL]) \<lparr>sh_history = [''ls''], sh_out = []\<rparr>) =
     [''ls'', ''pwd'']"
proof -
  have a: "trim_command ('' history '' @ [NL]) = ''history''"
    by code_simp
  have b: "sh_history (main_line (''pwd; history'' @ [NL]) \<lparr>sh_history = [''ls''], sh_out = []\<rparr>) =
     [''ls'', ''pwd'']"
    by code_simp
  have c: "entries (add_to_history MAX_HISTORY ''history'' (init_shell [])) = [''history'']"
    by code_simp
  show ?thesis
    using history_command_recording [of example_world "init_shell []" "'' history '' @ [NL]"
        "\<lparr>sh_history = [''ls''], sh_out = []\<rparr>" "''pwd; history'' @ [NL]"]
      init_shell_inv [of "[]"] a b
    by (simp add: entries_init_shell c)
qed

text \<open>
  Claim C10 fails on the code, which is at fault: the index is \<^verbatim>\<open>atoi\<close> of the digits,
  an \<^verbatim>\<open>int\<close>. The digits 4294967297 have the value \<open>2^32 + 1\<close>, \<^verbatim>\<open>atoi\<close> returns 1, and
  with one entry in the history the line \<^verbatim>\<open>!4294967297\<close> recalls it, echoes it, records
  it and runs it, where entry 4294967297 does not exist. (Up to \<^verbatim>\<open>INT_MAX\<close> the index is
  the value of the digits, and what follows them is ignored: \<open>atoi_digit_run\<close> above;
  the rest of the claim is \<open>recall_requested_iff\<close>, \<open>sh_loop_body_literal\<close> and
  \<open>sh_loop_body_recall\<close>.)
\<close>

theorem recall_index_wraps:
  "atoi ''4294967297'' = 1 \<and>
   entries (add_to_history MAX_HISTORY ''ls'' (init_shell [])) = [''ls''] \<and>
   fst (sh_loop_body example_world ''!4294967297''
          (add_to_history MAX_HISTORY ''ls'' (init_shell []))) = Some (Return 0) \<and>
   entries (snd (sh_loop_body example_world ''!4294967297''
          (add_to_history MAX_HISTORY ''ls'' (init_shell [])))) = [''ls'', ''ls''] \<and>
   out (snd (sh_loop_body example_world ''!4294967297''
          (add_to_history MAX_HISTORY ''ls'' (init_shell [])))) = ''ls'' @ [NL] \<and>
   err (snd (sh_loop_body example_world ''!4294967297''
          (add_to_history MAX_HISTORY ''ls'' (init_shell [])))) = [] \<and>
   trace (snd (sh_loop_body example_world ''!4294967297''
          (add_to_history MAX_HISTORY ''ls'' (init_shell [])))) =
     [Fork 100 (Ran [''ls''] \<lparr>io_stdin = Inherited, io_stdout = Inherited\<rparr> 0), Waitpid 100]"
  by code_simp


end
